theory Spec2Isabelle
  imports Complex_Main
begin

section \<open>Python dictionaries with integer keys\<close>

text \<open>
  The order book of \<^verbatim>\<open>order_book.py\<close> keeps two Python dictionaries from price to
  quantity. A dictionary is modelled as an association list in insertion order: storing
  under a key that is present overwrites the value in place, storing under a new key
  appends, \<^verbatim>\<open>pop(k, None)\<close> removes the key when it is there.
\<close>

type_synonym dict = "(int \<times> int) list"

fun dict_get :: "dict \<Rightarrow> int \<Rightarrow> int \<Rightarrow> int" where
  "dict_get [] k dflt = dflt"
| "dict_get ((k', v) # d) k dflt = (if k' = k then v else dict_get d k dflt)"

fun dict_setitem :: "dict \<Rightarrow> int \<Rightarrow> int \<Rightarrow> dict" where
  "dict_setitem [] k v = [(k, v)]"
| "dict_setitem ((k', v') # d) k v =
     (if k' = k then (k, v) # d else (k', v') # dict_setitem d k v)"

fun dict_pop :: "dict \<Rightarrow> int \<Rightarrow> dict" where
  "dict_pop [] k = []"
| "dict_pop ((k', v') # d) k = (if k' = k then dict_pop d k else (k', v') # dict_pop d k)"

text \<open>The comprehension \<^verbatim>\<open>{price: qty for price, qty in pairs}\<close>: the pairs are stored
  one after the other, so a later pair with the same price overwrites an earlier one.\<close>

fun dict_comprehension :: "(int \<times> int) list \<Rightarrow> dict \<Rightarrow> dict" where
  "dict_comprehension [] acc = acc"
| "dict_comprehension ((p, q) # pairs) acc = dict_comprehension pairs (dict_setitem acc p q)"

definition dict_keys :: "dict \<Rightarrow> int list" where
  "dict_keys d = map fst d"

text \<open>Python's \<^verbatim>\<open>max\<close> over a non-empty iterable: one pass that keeps the running maximum.\<close>

fun py_max :: "int list \<Rightarrow> int" where
  "py_max [] = 0"
| "py_max (k # ks) = fold (\<lambda>x m. if m < x then x else m) ks k"

section \<open>The order book\<close>

record order_book =
  market_ticker :: string
  yes :: dict
  no :: dict

definition OrderBook :: "string \<Rightarrow> order_book" where
  "OrderBook ticker = \<lparr>market_ticker = ticker, yes = [], no = []\<rparr>"

text \<open>A snapshot message may lack either list: \<^verbatim>\<open>msg.get("yes", [])\<close>.\<close>

record snapshot_msg =
  snap_yes :: "(int \<times> int) list option"
  snap_no :: "(int \<times> int) list option"

record delta_msg =
  msg_side :: string
  msg_price :: int
  msg_delta :: int

definition msg_get :: "(int \<times> int) list option \<Rightarrow> (int \<times> int) list" where
  "msg_get field = (case field of None \<Rightarrow> [] | Some levels \<Rightarrow> levels)"

definition apply_snapshot :: "order_book \<Rightarrow> snapshot_msg \<Rightarrow> order_book" where
  "apply_snapshot b msg =
     b\<lparr>yes := dict_comprehension (msg_get (snap_yes msg)) [],
       no := dict_comprehension (msg_get (snap_no msg)) []\<rparr>"

text \<open>The body of \<^verbatim>\<open>apply_delta\<close> on the dictionary it selected.\<close>

definition delta_on :: "dict \<Rightarrow> int \<Rightarrow> int \<Rightarrow> dict" where
  "delta_on d price delta =
     (let new_qty = dict_get d price 0 + delta
      in if new_qty \<le> 0 then dict_pop d price else dict_setitem d price new_qty)"

definition apply_delta :: "order_book \<Rightarrow> delta_msg \<Rightarrow> order_book" where
  "apply_delta b msg =
     (if msg_side msg = ''yes''
      then b\<lparr>yes := delta_on (yes b) (msg_price msg) (msg_delta msg)\<rparr>
      else b\<lparr>no := delta_on (no b) (msg_price msg) (msg_delta msg)\<rparr>)"

definition best_bid :: "order_book \<Rightarrow> string \<Rightarrow> int option" where
  "best_bid b s =
     (let book = (if s = ''yes'' then yes b else no b)
      in if book \<noteq> [] then Some (py_max (dict_keys book)) else None)"

definition best_ask :: "order_book \<Rightarrow> string \<Rightarrow> int option" where
  "best_ask b s =
     (let other = (if s = ''yes'' then no b else yes b)
      in if other \<noteq> [] then Some (100 - py_max (dict_keys other)) else None)"

definition spread :: "order_book \<Rightarrow> string \<Rightarrow> int option" where
  "spread b s =
     (case (best_bid b s, best_ask b s) of
        (Some bid, Some ask) \<Rightarrow> Some (ask - bid)
      | _ \<Rightarrow> None)"

text \<open>The dictionary a side name selects, and the one \<^verbatim>\<open>best_ask\<close> reads for it.\<close>

definition own_map :: "order_book \<Rightarrow> string \<Rightarrow> dict" where
  "own_map b s = (if s = ''yes'' then yes b else no b)"

definition opposite_map :: "order_book \<Rightarrow> string \<Rightarrow> dict" where
  "opposite_map b s = (if s = ''yes'' then no b else yes b)"

definition positive_levels :: "(int \<times> int) list \<Rightarrow> bool" where
  "positive_levels levels = list_all (\<lambda>(p, q). 0 < q) levels"

definition known_side :: "string \<Rightarrow> bool" where
  "known_side s = (s = ''yes'' \<or> s = ''no'')"

section \<open>Naive datetimes\<close>

text \<open>
  \<^verbatim>\<open>app.py\<close> reads the clock with \<^verbatim>\<open>datetime.datetime.now()\<close>, a naive datetime
  of microsecond resolution. The model keeps its seven fields and the operations of the
  standard library the scheduler and the signal tracker use: \<^verbatim>\<open>replace\<close>, adding a
  \<^verbatim>\<open>timedelta\<close>, subtracting two datetimes, comparing them, \<^verbatim>\<open>strftime\<close>. A
  \<^verbatim>\<open>timedelta\<close> is its number of microseconds.
\<close>

record datetime =
  year :: int
  month :: int
  day :: int
  hour :: int
  minute :: int
  second :: int
  microsecond :: int

datatype error = ValueError | OverflowError | TypeError

definition MINYEAR :: int where
  "MINYEAR = 1"

definition MAXYEAR :: int where
  "MAXYEAR = 9999"

definition is_leap :: "int \<Rightarrow> bool" where
  "is_leap y = (y mod 4 = 0 \<and> (y mod 100 \<noteq> 0 \<or> y mod 400 = 0))"

definition days_before_year :: "int \<Rightarrow> int" where
  "days_before_year y = (let y1 = y - 1 in y1 * 365 + y1 div 4 - y1 div 100 + y1 div 400)"

definition days_in_month :: "int \<Rightarrow> int \<Rightarrow> int" where
  "days_in_month y m =
     (if m = 2 \<and> is_leap y then 29
      else [31, 28, 31, 30, 31, 30, 31, 31, 30, 31, 30, 31] ! nat (m - 1))"

definition days_before_month :: "int \<Rightarrow> int \<Rightarrow> int" where
  "days_before_month y m =
     [0, 31, 59, 90, 120, 151, 181, 212, 243, 273, 304, 334] ! nat (m - 1)
     + (if 2 < m \<and> is_leap y then 1 else 0)"

definition ymd2ord :: "int \<Rightarrow> int \<Rightarrow> int \<Rightarrow> int" where
  "ymd2ord y m d = days_before_year y + days_before_month y m + d"

definition toordinal :: "datetime \<Rightarrow> int" where
  "toordinal t = ymd2ord (year t) (month t) (day t)"

definition valid_datetime :: "datetime \<Rightarrow> bool" where
  "valid_datetime t =
     (MINYEAR \<le> year t \<and> year t \<le> MAXYEAR \<and> 1 \<le> month t \<and> month t \<le> 12 \<and>
      1 \<le> day t \<and> day t \<le> days_in_month (year t) (month t) \<and>
      0 \<le> hour t \<and> hour t \<le> 23 \<and> 0 \<le> minute t \<and> minute t \<le> 59 \<and>
      0 \<le> second t \<and> second t \<le> 59 \<and> 0 \<le> microsecond t \<and> microsecond t \<le> 999999)"

text \<open>\<^verbatim>\<open>now.replace(minute=mi, second=s, microsecond=us)\<close> checks the new fields.\<close>

definition replace :: "datetime \<Rightarrow> int \<Rightarrow> int \<Rightarrow> int \<Rightarrow> error + datetime" where
  "replace t mi s us =
     (if 0 \<le> mi \<and> mi \<le> 59 \<and> 0 \<le> s \<and> s \<le> 59 \<and> 0 \<le> us \<and> us \<le> 999999
      then Inr (t\<lparr>minute := mi, second := s, microsecond := us\<rparr>)
      else Inl ValueError)"

text \<open>
  Adding a \<^verbatim>\<open>timedelta\<close>: the microseconds of the day plus the delta, split into whole
  days and the rest; the date moves by the whole days, one calendar day at a time, and a
  result outside the years 1 to 9999 is the library's \<^verbatim>\<open>OverflowError\<close>.
\<close>

definition next_date :: "int \<times> int \<times> int \<Rightarrow> int \<times> int \<times> int" where
  "next_date = (\<lambda>(y, m, d).
     if d < days_in_month y m then (y, m, d + 1)
     else if m < 12 then (y, m + 1, 1)
     else (y + 1, 1, 1))"

definition prev_date :: "int \<times> int \<times> int \<Rightarrow> int \<times> int \<times> int" where
  "prev_date = (\<lambda>(y, m, d).
     if 1 < d then (y, m, d - 1)
     else if 1 < m then (y, m - 1, days_in_month y (m - 1))
     else (y - 1, 12, 31))"

definition shift_date :: "int \<Rightarrow> int \<times> int \<times> int \<Rightarrow> int \<times> int \<times> int" where
  "shift_date k ymd = (if 0 \<le> k then (next_date ^^ nat k) ymd else (prev_date ^^ nat (- k)) ymd)"

definition micros_of_day :: "datetime \<Rightarrow> int" where
  "micros_of_day t = ((hour t * 60 + minute t) * 60 + second t) * 1000000 + microsecond t"

definition add_timedelta :: "datetime \<Rightarrow> int \<Rightarrow> error + datetime" where
  "add_timedelta t delta =
     (let total = micros_of_day t + delta;
          days = total div 86400000000;
          rest = total mod 86400000000;
          (y, m, d) = shift_date days (year t, month t, day t)
      in if MINYEAR \<le> y \<and> y \<le> MAXYEAR
         then Inr \<lparr>year = y, month = m, day = d,
                   hour = rest div 3600000000,
                   minute = rest div 60000000 mod 60,
                   second = rest div 1000000 mod 60,
                   microsecond = rest mod 1000000\<rparr>
         else Inl OverflowError)"

text \<open>The difference \<^verbatim>\<open>a - b\<close> of two datetimes, in microseconds.\<close>

definition dt_sub :: "datetime \<Rightarrow> datetime \<Rightarrow> int" where
  "dt_sub a b = (toordinal a - toordinal b) * 86400000000 + (micros_of_day a - micros_of_day b)"

text \<open>Comparison is the comparison of the field tuples.\<close>

fun cmp :: "int list \<Rightarrow> int list \<Rightarrow> int" where
  "cmp [] [] = 0"
| "cmp [] (y # ys) = - 1"
| "cmp (x # xs) [] = 1"
| "cmp (x # xs) (y # ys) = (if x < y then - 1 else if y < x then 1 else cmp xs ys)"

definition getstate :: "datetime \<Rightarrow> int list" where
  "getstate t = [year t, month t, day t, hour t, minute t, second t, microsecond t]"

definition dt_gt :: "datetime \<Rightarrow> datetime \<Rightarrow> bool" where
  "dt_gt a b = (0 < cmp (getstate a) (getstate b))"

text \<open>
  \<^verbatim>\<open>strftime\<close> with the directives the ticker uses: \<^verbatim>\<open>%d\<close>, \<^verbatim>\<open>%y\<close>, \<^verbatim>\<open>%H\<close> and
  \<^verbatim>\<open>%M\<close> print a number below 100 with two digits, \<^verbatim>\<open>%b\<close> prints the abbreviated
  month name (of the C locale).
\<close>

definition digit_char :: "int \<Rightarrow> char" where
  "digit_char n = ''0123456789'' ! nat n"

definition two_digits :: "int \<Rightarrow> string" where
  "two_digits n = [digit_char (n div 10), digit_char (n mod 10)]"

definition month_abbr :: "int \<Rightarrow> string" where
  "month_abbr m =
     [''Jan'', ''Feb'', ''Mar'', ''Apr'', ''May'', ''Jun'',
      ''Jul'', ''Aug'', ''Sep'', ''Oct'', ''Nov'', ''Dec''] ! nat (m - 1)"

definition upper_char :: "char \<Rightarrow> char" where
  "upper_char c =
     (case map_of (zip ''abcdefghijklmnopqrstuvwxyz'' ''ABCDEFGHIJKLMNOPQRSTUVWXYZ'') c of
        Some u \<Rightarrow> u
      | None \<Rightarrow> c)"

definition upper :: "string \<Rightarrow> string" where
  "upper s = map upper_char s"

section \<open>The contract scheduler\<close>

text \<open>\<^verbatim>\<open>BTC15Frame._compute\<close>: the ticker and the expiry of the active 15-minute contract.\<close>

definition ticker_of :: "datetime \<Rightarrow> string" where
  "ticker_of ex =
     (let dd = two_digits (day ex);
          mon = upper (month_abbr (month ex));
          yy = two_digits (year ex mod 100);
          hh = two_digits (hour ex);
          mm = two_digits (minute ex)
      in ''KXBTC15M-'' @ yy @ mon @ dd @ hh @ mm @ ''-'' @ mm)"

definition compute :: "datetime \<Rightarrow> error + (string \<times> datetime)" where
  "compute now =
     (let nm = ((minute now div 15) + 1) * 15
      in case (if 60 \<le> nm
               then (case replace now 0 0 0 of
                       Inl e \<Rightarrow> Inl e
                     | Inr t \<Rightarrow> add_timedelta t (1 * 3600000000))
               else replace now nm 0 0) of
           Inl e \<Rightarrow> Inl e
         | Inr ex \<Rightarrow> Inr (ticker_of ex, ex))"

text \<open>The start of the contract, as \<^verbatim>\<open>_roll\<close> derives it:
  \<^verbatim>\<open>expiry - datetime.timedelta(minutes=15)\<close>.\<close>

definition contract_start_of :: "datetime \<Rightarrow> error + datetime" where
  "contract_start_of ex = add_timedelta ex (- (15 * 60000000))"

text \<open>Reading the identifier back: the value of a two-digit field.\<close>

definition digit_value :: "char \<Rightarrow> int option" where
  "digit_value c = map_of (zip ''0123456789'' [0, 1, 2, 3, 4, 5, 6, 7, 8, 9]) c"

definition read_two_digits :: "string \<Rightarrow> int option" where
  "read_two_digits s =
     (case s of
        [a, b] \<Rightarrow> (case (digit_value a, digit_value b) of
                    (Some x, Some y) \<Rightarrow> Some (10 * x + y)
                  | _ \<Rightarrow> None)
      | _ \<Rightarrow> None)"

definition MON :: "string list" where
  "MON = [''JAN'', ''FEB'', ''MAR'', ''APR'', ''MAY'', ''JUN'',
          ''JUL'', ''AUG'', ''SEP'', ''OCT'', ''NOV'', ''DEC'']"

text \<open>
  The last quarter of an hour of the year 9999: rounding it up leaves the range of
  \<^verbatim>\<open>datetime\<close>.
\<close>

definition end_of_time :: "datetime \<Rightarrow> bool" where
  "end_of_time now =
     (year now = MAXYEAR \<and> month now = 12 \<and> day now = 31 \<and> hour now = 23 \<and> 45 \<le> minute now)"

text \<open>
  What the scheduler promises of an expiry \<open>ex\<close> computed at \<open>now\<close>: it is later than
  \<open>now\<close> (as the comparison of datetimes and as a difference), at most 15 minutes later,
  at a minute that is the next multiple of 15 modulo 60, with seconds and microseconds 0.
\<close>

definition expiry_ok :: "datetime \<Rightarrow> datetime \<Rightarrow> bool" where
  "expiry_ok now ex =
     (dt_gt ex now \<and> 0 < dt_sub ex now \<and> dt_sub ex now \<le> 15 * 60000000 \<and>
      minute ex = ((minute now div 15 + 1) * 15) mod 60 \<and> minute ex mod 15 = 0 \<and>
      second ex = 0 \<and> microsecond ex = 0 \<and> valid_datetime ex)"

section \<open>Python floats\<close>

text \<open>
  \<^verbatim>\<open>_check_events\<close> and \<^verbatim>\<open>_add_event_row\<close> compute with Python floats, IEEE 754
  binary64 numbers: \<^verbatim>\<open>total_seconds()\<close> divides the microseconds of a \<^verbatim>\<open>timedelta\<close> by
  \<open>10^6\<close>, the elapsed minutes divide that by 60, and the P&L estimate is
  \<^verbatim>\<open>10.0 * (ask - 40) / 40\<close>. A finite float is the rational number it stands for, and
  every operation returns the double nearest to the exact result, ties going to the even
  mantissa. The mantissa has 53 bits, so the spacing of the doubles around a number of
  binary exponent \<open>e\<close> is \<open>2 powi (e - 52)\<close>, and never less than \<open>2 powi (- 1074)\<close>.
\<close>

fun bit_length :: "nat \<Rightarrow> nat" where
  "bit_length n = (if n = 0 then 0 else Suc (bit_length (n div 2)))"

declare bit_length.simps [simp del]

text \<open>The binary exponent of a positive rational: \<open>2 powi ilog2 a \<le> a < 2 powi (ilog2 a + 1)\<close>.\<close>

definition ilog2 :: "rat \<Rightarrow> int" where
  "ilog2 a =
     (let (p, q) = quotient_of a;
          e0 = int (bit_length (nat p)) - int (bit_length (nat q))
      in if 2 powi e0 \<le> a then e0 else e0 - 1)"

definition round_half_even :: "rat \<Rightarrow> int" where
  "round_half_even m =
     (let f = \<lfloor>m\<rfloor>; r = m - of_int f
      in if r < 1 / 2 then f else if 1 / 2 < r then f + 1 else if even f then f else f + 1)"

definition quantum_exp :: "rat \<Rightarrow> int" where
  "quantum_exp a = max (ilog2 a - 52) (- 1074)"

definition nearest_double :: "rat \<Rightarrow> rat" where
  "nearest_double x =
     (if x = 0 then 0
      else (let a = \<bar>x\<bar>; q = 2 powi quantum_exp a
            in sgn x * of_int (round_half_even (a / q)) * q))"

text \<open>
  A float is finite or an infinity (no operation here produces a NaN). Converting an
  integer beyond the range of the doubles raises \<^verbatim>\<open>OverflowError\<close>; a product beyond
  the range is an infinity; a quotient by a non-zero constant stays finite or infinite.
\<close>

datatype pyfloat = Finite rat | PosInf | NegInf

definition int_to_float :: "int \<Rightarrow> error + rat" where
  "int_to_float k =
     (let r = nearest_double (of_int k)
      in if \<bar>r\<bar> < 2 ^ 1024 then Inr r else Inl OverflowError)"

definition float_mul :: "rat \<Rightarrow> rat \<Rightarrow> pyfloat" where
  "float_mul x y =
     (let r = nearest_double (x * y)
      in if \<bar>r\<bar> < 2 ^ 1024 then Finite r else if 0 < r then PosInf else NegInf)"

definition float_div :: "pyfloat \<Rightarrow> rat \<Rightarrow> pyfloat" where
  "float_div x y =
     (case x of
        Finite r \<Rightarrow> Finite (nearest_double (r / y))
      | PosInf \<Rightarrow> PosInf
      | NegInf \<Rightarrow> NegInf)"

text \<open>\<^verbatim>\<open>timedelta.total_seconds()\<close> of a difference of \<open>td\<close> microseconds. The range of
  \<^verbatim>\<open>timedelta\<close> keeps the quotient far inside the range of the doubles.\<close>

definition total_seconds :: "int \<Rightarrow> rat" where
  "total_seconds td = nearest_double (of_int td / 1000000)"

text \<open>\<^verbatim>\<open>pnl_val = 10.0 * (ask - 40) / 40\<close>, evaluated from the left: the integer
  \<^verbatim>\<open>ask - 40\<close> is converted, multiplied by 10.0, and the product divided by 40.\<close>

definition pnl_of :: "int \<Rightarrow> error + pyfloat" where
  "pnl_of ask =
     (case int_to_float (ask - 40) of
        Inl e \<Rightarrow> Inl e
      | Inr f \<Rightarrow> Inr (float_div (float_mul 10 f) 40))"

section \<open>The signal tracker of a BTC 15-minute frame\<close>

text \<open>
  The part of \<^verbatim>\<open>BTC15Frame\<close> that tracks entry, target and stop-loss cycles. The frame
  is a record of the fields \<^verbatim>\<open>_check_events\<close> and \<^verbatim>\<open>_roll\<close> read and write. The three
  spin boxes are \<^verbatim>\<open>IntVar\<close>s whose \<^verbatim>\<open>get()\<close> may raise \<^verbatim>\<open>TclError\<close>: \<open>None\<close> stands
  for that. The labels of the event rows are the strings \<^verbatim>\<open>"T40"\<close>, \<^verbatim>\<open>"TARGET #n"\<close>,
  \<^verbatim>\<open>"STOP LOSS"\<close> and \<^verbatim>\<open>"MILESTONE"\<close>. Every event appends a row to the log; when a
  callback \<^verbatim>\<open>on_event\<close> is registered it is called with the event and its analytics, of
  which the model keeps the P&L value. Durations are floats, the \<^verbatim>\<open>total_seconds()\<close> of
  a difference of clock readings.
\<close>

datatype label = T40 | TARGET int | STOP_LOSS | MILESTONE

record log_row =
  row_time :: datetime
  row_ask :: "int option"
  row_duration :: "rat option"
  row_evt :: label

record event =
  ev_time :: datetime
  ev_price :: "int option"
  ev_label :: label
  ev_duration :: "rat option"
  ev_pnl_value :: "pyfloat option"

record frame =
  side :: string
  ticker :: string
  expiry :: "datetime option"
  book :: order_book
  contract_start :: "datetime option"
  log_rows :: "log_row list"
  in_trigger :: bool
  trigger_time :: "datetime option"
  cycle_count :: int
  cycle_log :: "(datetime \<times> datetime) list"
  stop_loss_count :: int
  stopped_out :: bool
  entry_ask :: "int option"
  no_entry_after_var :: "int option"
  max_cycles_var :: "int option"
  sl_delay_var :: "int option"
  on_event :: bool
  delivered :: "event list"

text \<open>\<^verbatim>\<open>try: v = var.get()  except tk.TclError: v = 0\<close>\<close>

definition var_get :: "int option \<Rightarrow> int" where
  "var_get v = (case v of None \<Rightarrow> 0 | Some n \<Rightarrow> n)"

definition startswith_TARGET :: "label \<Rightarrow> bool" where
  "startswith_TARGET l = (case l of TARGET n \<Rightarrow> True | _ \<Rightarrow> False)"

text \<open>
  \<^verbatim>\<open>_add_event_row\<close>: the row is appended to the log first; with a callback registered
  the P&L value of a TARGET or STOP LOSS event is computed, which raises
  \<^verbatim>\<open>OverflowError\<close> when the price is beyond the range of the doubles, and the event is
  handed to the callback.
\<close>

definition add_event_row ::
  "frame \<Rightarrow> label \<Rightarrow> datetime \<Rightarrow> int \<Rightarrow> rat option \<Rightarrow> error + frame" where
  "add_event_row s lbl time ask duration =
     (let row = \<lparr>row_time = time, row_ask = Some ask, row_duration = duration, row_evt = lbl\<rparr>;
          s1 = s\<lparr>log_rows := log_rows s @ [row]\<rparr>
      in if on_event s1
         then (case (if startswith_TARGET lbl \<or> lbl = STOP_LOSS
                     then (case pnl_of ask of Inl e \<Rightarrow> Inl e | Inr v \<Rightarrow> Inr (Some v))
                     else Inr None) of
                 Inl e \<Rightarrow> Inl e
               | Inr pnl_val \<Rightarrow>
                  Inr (s1\<lparr>delivered := delivered s1 @
                         [\<lparr>ev_time = time, ev_price = Some ask, ev_label = lbl,
                           ev_duration = duration, ev_pnl_value = pnl_val\<rparr>]\<rparr>))
         else Inr s1)"

definition add_milestone_row :: "frame \<Rightarrow> datetime \<Rightarrow> frame" where
  "add_milestone_row s now =
     (let row = \<lparr>row_time = now, row_ask = None, row_duration = None, row_evt = MILESTONE\<rparr>;
          s1 = s\<lparr>log_rows := log_rows s @ [row]\<rparr>
      in if on_event s1
         then s1\<lparr>delivered := delivered s1 @
                [\<lparr>ev_time = now, ev_price = None, ev_label = MILESTONE,
                  ev_duration = None, ev_pnl_value = None\<rparr>]\<rparr>
         else s1)"

text \<open>
  \<^verbatim>\<open>_check_events\<close>, with the clock reading \<open>now\<close> it takes as a parameter. The times
  it compares are floats: the seconds remaining, the elapsed minutes
  \<^verbatim>\<open>total_seconds() / 60\<close>, the seconds since the trigger. Besides the
  \<^verbatim>\<open>OverflowError\<close> of the P&L value it can raise the \<^verbatim>\<open>TypeError\<close> of
  \<^verbatim>\<open>now - self._trigger_time\<close> in the target branch when a trigger is open without a
  trigger time.
\<close>

definition check_events :: "frame \<Rightarrow> datetime \<Rightarrow> error + frame" where
  "check_events s now =
     (if stopped_out s then Inr s
      else case best_ask (book s) (side s) of
        None \<Rightarrow> Inr s
      | Some ask \<Rightarrow>
         (let bid = best_bid (book s) (side s);
              secs_remaining = (case expiry s of Some e \<Rightarrow> total_seconds (dt_sub e now)
                                | None \<Rightarrow> 999)
          in if \<not> in_trigger s then
               (if secs_remaining < 30 then Inr s
                else
                  (let no_entry_mins = var_get (no_entry_after_var s)
                   in if 0 < no_entry_mins \<and>
                         (case contract_start s of
                            Some cs \<Rightarrow>
                              of_int no_entry_mins
                                \<le> nearest_double (total_seconds (dt_sub now cs) / 60)
                          | None \<Rightarrow> False)
                      then Inr s
                      else if ask \<le> 40
                      then add_event_row
                             (s\<lparr>in_trigger := True, trigger_time := Some now,
                                entry_ask := Some ask\<rparr>) T40 now ask None
                      else Inr s))
             else
               (if ask \<le> 10 then
                  (let sl_delay = var_get (sl_delay_var s);
                       elapsed = (case trigger_time s of Some t \<Rightarrow> total_seconds (dt_sub now t)
                                  | None \<Rightarrow> 999)
                   in if 0 < sl_delay \<and> elapsed < of_int sl_delay then Inr s
                      else add_event_row
                             (s\<lparr>stop_loss_count := stop_loss_count s + 1,
                                in_trigger := False, trigger_time := None,
                                stopped_out := True\<rparr>) STOP_LOSS now ask None)
                else case bid of
                  None \<Rightarrow> Inr s
                | Some b \<Rightarrow>
                   (if 45 \<le> b then
                      (case trigger_time s of
                         None \<Rightarrow> Inl TypeError
                       | Some t \<Rightarrow>
                          (let secs = total_seconds (dt_sub now t)
                           in case (if secs < 2 then Inr s
                                    else add_event_row
                                           (s\<lparr>cycle_count := cycle_count s + 1,
                                              cycle_log := cycle_log s @ [(t, now)],
                                              in_trigger := False, trigger_time := None\<rparr>)
                                           (TARGET (cycle_count s + 1)) now b (Some secs)) of
                                Inl e \<Rightarrow> Inl e
                              | Inr s1 \<Rightarrow>
                                 (let s2 = (if cycle_count s1 = 4
                                            then add_milestone_row s1 now else s1);
                                      max_c = var_get (max_cycles_var s2)
                                  in Inr (if 0 < max_c \<and> max_c \<le> cycle_count s2
                                          then s2\<lparr>stopped_out := True\<rparr> else s2))))
                    else Inr s))))"

text \<open>
  The \<^verbatim>\<open>"data"\<close> branch of \<^verbatim>\<open>_poll\<close>: a snapshot replaces the book, any other data
  message is applied as a delta, then the events are checked. An exception leaves
  \<^verbatim>\<open>_poll\<close> before it re-arms its timer, so no later update is processed.
\<close>

datatype payload = Snapshot snapshot_msg | Delta delta_msg

definition on_data :: "frame \<Rightarrow> payload \<Rightarrow> datetime \<Rightarrow> error + frame" where
  "on_data s p now =
     check_events
       (s\<lparr>book := (case p of Snapshot msg \<Rightarrow> apply_snapshot (book s) msg
                             | Delta msg \<Rightarrow> apply_delta (book s) msg)\<rparr>) now"

fun poll :: "frame \<Rightarrow> (payload \<times> datetime) list \<Rightarrow> error + frame" where
  "poll s [] = Inr s"
| "poll s ((p, now) # rest) =
     (case on_data s p now of Inl e \<Rightarrow> Inl e | Inr s' \<Rightarrow> poll s' rest)"

text \<open>
  \<^verbatim>\<open>_roll\<close>: the cycle tracking is reset, the next contract is computed from the
  clock, its start is the expiry minus 15 minutes, and a new empty book is opened.
\<close>

definition roll :: "frame \<Rightarrow> datetime \<Rightarrow> error + frame" where
  "roll s now =
     (let s1 = s\<lparr>in_trigger := False, trigger_time := None, cycle_count := 0,
                 cycle_log := [], stop_loss_count := 0, stopped_out := False\<rparr>
      in case compute now of
           Inl e \<Rightarrow> Inl e
         | Inr (tk, ex) \<Rightarrow>
            (case contract_start_of ex of
               Inl e \<Rightarrow> Inl e
             | Inr cs \<Rightarrow>
                Inr (s1\<lparr>ticker := tk, expiry := Some ex, contract_start := Some cs,
                        book := OrderBook tk, entry_ask := None\<rparr>)))"

text \<open>The frame as \<^verbatim>\<open>__init__\<close> leaves it before its first \<^verbatim>\<open>_roll\<close>, with the
  spin boxes at their initial value 0.\<close>

definition init_frame :: "string \<Rightarrow> bool \<Rightarrow> frame" where
  "init_frame sd cb =
     \<lparr>side = sd, ticker = [], expiry = None, book = OrderBook [], contract_start = None,
      log_rows = [], in_trigger = False, trigger_time = None, cycle_count = 0,
      cycle_log = [], stop_loss_count = 0, stopped_out = False, entry_ask = None,
      no_entry_after_var = Some 0, max_cycles_var = Some 0, sl_delay_var = Some 0,
      on_event = cb, delivered = []\<rparr>"

text \<open>
  The outputs of a run that the properties below speak of: the labels of the rows logged,
  the labels of the events handed to the callback, their P&L values and durations. A run opens a
  frame at a clock reading (the first \<^verbatim>\<open>_roll\<close>) and feeds it book updates with their
  clock readings; a later roll continues with the next contract.
\<close>

definition evts :: "error + frame \<Rightarrow> label list" where
  "evts r = (case r of Inl e \<Rightarrow> [] | Inr s \<Rightarrow> map row_evt (log_rows s))"

definition sent :: "error + frame \<Rightarrow> label list" where
  "sent r = (case r of Inl e \<Rightarrow> [] | Inr s \<Rightarrow> map ev_label (delivered s))"

definition pnls :: "error + frame \<Rightarrow> pyfloat option list" where
  "pnls r = (case r of Inl e \<Rightarrow> [] | Inr s \<Rightarrow> map ev_pnl_value (delivered s))"

definition durations :: "error + frame \<Rightarrow> rat option list" where
  "durations r = (case r of Inl e \<Rightarrow> [] | Inr s \<Rightarrow> map ev_duration (delivered s))"

definition then_poll :: "error + frame \<Rightarrow> (payload \<times> datetime) list \<Rightarrow> error + frame" where
  "then_poll r ups = (case r of Inl e \<Rightarrow> Inl e | Inr s \<Rightarrow> poll s ups)"

definition then_roll :: "error + frame \<Rightarrow> datetime \<Rightarrow> error + frame" where
  "then_roll r now = (case r of Inl e \<Rightarrow> Inl e | Inr s \<Rightarrow> roll s now)"

definition run :: "string \<Rightarrow> bool \<Rightarrow> datetime \<Rightarrow> (payload \<times> datetime) list \<Rightarrow> error + frame" where
  "run sd cb start ups = then_poll (roll (init_frame sd cb) start) ups"

text \<open>
  A TARGET event carries the P&L estimate of the fixed 40 cent cost basis,
  \<open>10 * (price - 40) / 40\<close>, where the price is the one the event row was given, the bid at
  which the target fired. The float is this number exactly for every price within
  \<open>2 ^ 49\<close> of the cost basis, which covers the cents 1 to 99 of a price level; beyond
  that the products and quotients are rounded.
\<close>

definition target_pnl_ok :: "event \<Rightarrow> bool" where
  "target_pnl_ok ev =
     (case ev_label ev of
        TARGET n \<Rightarrow>
          (case ev_price ev of
             Some exit_price \<Rightarrow>
               2 ^ 49 < \<bar>exit_price - 40\<bar> \<or>
               ev_pnl_value ev = Some (Finite (10 * (of_int exit_price - 40) / 40))
           | None \<Rightarrow> False)
      | _ \<Rightarrow> True)"

text \<open>
  Sample data: clock readings on 21 February 2026, a book with ask 40 and bid 30, a book
  with bid 45 and ask 50, and the frame of the contract expiring at 12:15 with a given
  book, idle or with a trigger opened at 12:01:00.
\<close>

definition feb21 :: "int \<Rightarrow> int \<Rightarrow> int \<Rightarrow> datetime" where
  "feb21 h mi s = \<lparr>year = 2026, month = 2, day = 21, hour = h, minute = mi, second = s,
     microsecond = 0\<rparr>"

definition low_ask :: payload where
  "low_ask = Snapshot \<lparr>snap_yes = Some [(30, 10)], snap_no = Some [(60, 10)]\<rparr>"

definition high_bid :: payload where
  "high_bid = Snapshot \<lparr>snap_yes = Some [(45, 10)], snap_no = Some [(50, 10)]\<rparr>"

definition open_frame :: "dict \<Rightarrow> dict \<Rightarrow> frame" where
  "open_frame ys ns =
     (init_frame ''yes'' True)
       \<lparr>ticker := ''KXBTC15M-26FEB211215-15'', expiry := Some (feb21 12 15 0),
        book := \<lparr>market_ticker = ''KXBTC15M-26FEB211215-15'', yes = ys, no = ns\<rparr>,
        contract_start := Some (feb21 12 0 0)\<rparr>"

definition triggered_frame :: "dict \<Rightarrow> dict \<Rightarrow> frame" where
  "triggered_frame ys ns =
     (open_frame ys ns)
       \<lparr>in_trigger := True, trigger_time := Some (feb21 12 1 0), entry_ask := Some 40\<rparr>"

section \<open>Facts about the dictionary operations\<close>

lemma dict_get_map_of:
  "dict_get d k dflt = (case map_of d k of None \<Rightarrow> dflt | Some v \<Rightarrow> v)"
  by (induction d k dflt rule: dict_get.induct) auto

lemma map_of_dict_setitem: "map_of (dict_setitem d k v) = (map_of d)(k \<mapsto> v)"
  by (induction d k v rule: dict_setitem.induct) auto

lemma map_of_dict_pop: "map_of (dict_pop d k) = (map_of d)(k := None)"
  by (induction d k rule: dict_pop.induct) auto

lemma positive_levels_Nil: "positive_levels []"
  by (simp add: positive_levels_def)

lemma positive_dict_setitem:
  "positive_levels d \<Longrightarrow> 0 < v \<Longrightarrow> positive_levels (dict_setitem d k v)"
  by (induction d k v rule: dict_setitem.induct) (auto simp: positive_levels_def)

lemma positive_dict_pop: "positive_levels d \<Longrightarrow> positive_levels (dict_pop d k)"
  by (induction d k rule: dict_pop.induct) (auto simp: positive_levels_def)

lemma positive_delta_on: "positive_levels d \<Longrightarrow> positive_levels (delta_on d p dl)"
  by (simp add: delta_on_def Let_def positive_dict_setitem positive_dict_pop)

lemma positive_dict_comprehension:
  "positive_levels pairs \<Longrightarrow> positive_levels acc \<Longrightarrow>
   positive_levels (dict_comprehension pairs acc)"
proof (induction pairs acc rule: dict_comprehension.induct)
  case (1 acc)
  then show ?case by simp
next
  case (2 p q pairs acc)
  from "2.prems" have q: "0 < q" and rest: "positive_levels pairs"
    by (simp_all add: positive_levels_def)
  from "2.prems"(2) q have "positive_levels (dict_setitem acc p q)"
    by (rule positive_dict_setitem)
  with rest show ?case using "2.IH" by simp
qed

lemma map_of_delta_on:
  "map_of (delta_on d p dl) =
     (if dict_get d p 0 + dl \<le> 0 then (map_of d)(p := None)
      else (map_of d)(p \<mapsto> dict_get d p 0 + dl))"
  by (simp add: delta_on_def Let_def map_of_dict_setitem map_of_dict_pop)

lemma fold_max_eq: "fold (\<lambda>x m. if m < x then x else m) ks (m::int) = Max (insert m (set ks))"
proof (induction ks arbitrary: m)
  case Nil
  then show ?case by simp
next
  case (Cons k ks)
  have "Max (insert m (insert k (set ks))) = Max (insert (max m k) (set ks))"
    by (cases "set ks = {}") (simp_all add: max.assoc)
  moreover have "(if m < k then k else m) = max m k" by (simp add: max_def)
  ultimately show ?case using Cons.IH by simp
qed

lemma py_max_eq: "ks \<noteq> [] \<Longrightarrow> py_max ks = Max (set ks)"
  by (cases ks) (simp_all add: fold_max_eq)

lemma map_of_dict_comprehension:
  "map_of (dict_comprehension pairs acc) = map_of acc ++ map_of (rev pairs)"
proof (induction pairs acc rule: dict_comprehension.induct)
  case (1 acc)
  then show ?case by simp
next
  case (2 p q pairs acc)
  have "map_of (dict_setitem acc p q) ++ map_of (rev pairs)
        = map_of acc ++ (map_of [(p, q)] ++ map_of (rev pairs))"
    by (simp add: map_of_dict_setitem fun_eq_iff map_add_def split: option.splits)
  with "2.IH" show ?case by simp
qed

lemma positive_apply_delta:
  "positive_levels (yes b) \<Longrightarrow> positive_levels (no b) \<Longrightarrow>
   positive_levels (yes (apply_delta b m)) \<and> positive_levels (no (apply_delta b m))"
  by (simp add: apply_delta_def positive_delta_on)

lemma positive_foldl_apply_delta:
  "positive_levels (yes b) \<Longrightarrow> positive_levels (no b) \<Longrightarrow>
   positive_levels (yes (foldl apply_delta b ms)) \<and>
   positive_levels (no (foldl apply_delta b ms))"
proof (induction ms arbitrary: b)
  case Nil
  then show ?case by simp
next
  case (Cons m ms)
  from Cons.prems have "positive_levels (yes (apply_delta b m))"
    and "positive_levels (no (apply_delta b m))"
    using positive_apply_delta by blast+
  then show ?case using Cons.IH by simp
qed

section \<open>Facts about the calendar and the scheduler\<close>

lemma div_step:
  assumes "0 < (k::int)"
  shows "y div k - (y - 1) div k = (if y mod k = 0 then 1 else 0)"
proof (cases "y mod k = 0")
  case True
  then obtain q where q: "y = k * q" by auto
  have "(k * q - 1) div k = q - 1"
  proof (rule int_div_pos_eq)
    show "k * q - 1 = k * (q - 1) + (k - 1)" by (simp add: algebra_simps)
    show "0 \<le> k - 1" using assms by simp
    show "k - 1 < k" by simp
  qed
  with q True assms show ?thesis by simp
next
  case False
  define r where "r = y mod k"
  define q where "q = y div k"
  have y: "y = k * q + r" by (simp add: r_def q_def)
  have "0 \<le> r" "r < k" using assms by (simp_all add: r_def)
  with False have r: "0 < r" "r < k" by (simp_all add: r_def)
  have "(k * q + r - 1) div k = q"
  proof (rule int_div_pos_eq)
    show "k * q + r - 1 = k * q + (r - 1)" by simp
    show "0 \<le> r - 1" using r by simp
    show "r - 1 < k" using r by simp
  qed
  with y False show ?thesis by (simp add: q_def)
qed

lemma days_before_year_Suc:
  "days_before_year (y + 1) = days_before_year y + (if is_leap y then 366 else 365)"
proof -
  define i4 where "i4 = y div 4 - (y - 1) div 4"
  define i100 where "i100 = y div 100 - (y - 1) div 100"
  define i400 where "i400 = y div 400 - (y - 1) div 400"
  define p4 where "p4 = (y mod 4 = 0)"
  define p100 where "p100 = (y mod 100 = 0)"
  define p400 where "p400 = (y mod 400 = 0)"
  have a: "i4 = (if p4 then 1 else 0)"
    unfolding i4_def p4_def by (rule div_step) simp
  have b: "i100 = (if p100 then 1 else 0)"
    unfolding i100_def p100_def by (rule div_step) simp
  have c: "i400 = (if p400 then 1 else 0)"
    unfolding i400_def p400_def by (rule div_step) simp
  have "(100::int) dvd 400" by simp
  then have d: "p400 \<Longrightarrow> p100"
    unfolding p400_def p100_def using dvd_trans mod_eq_0_iff_dvd by blast
  have "(4::int) dvd 100" by simp
  then have e: "p100 \<Longrightarrow> p4"
    unfolding p4_def p100_def using dvd_trans mod_eq_0_iff_dvd by blast
  have eq: "days_before_year (y + 1) = days_before_year y + (365 + i4 - i100 + i400)"
    unfolding days_before_year_def Let_def i4_def i100_def i400_def by simp
  have leap: "is_leap y = (p4 \<and> (\<not> p100 \<or> p400))"
    unfolding is_leap_def p4_def p100_def p400_def by (rule refl)
  have "365 + i4 - i100 + i400 = (if is_leap y then 366 else 365)"
    unfolding a b c leap using d e by (cases p4; cases p100; cases p400) simp_all
  with eq show ?thesis by simp
qed

lemma days_before_month_Suc:
  assumes "1 \<le> m" "m < 12"
  shows "days_before_month y (m + 1) = days_before_month y m + days_in_month y m"
proof -
  from assms have "m = 1 \<or> m = 2 \<or> m = 3 \<or> m = 4 \<or> m = 5 \<or> m = 6 \<or> m = 7 \<or> m = 8 \<or>
      m = 9 \<or> m = 10 \<or> m = 11"
    by arith
  then show ?thesis
    by (elim disjE) (simp_all add: days_before_month_def days_in_month_def)
qed

lemma days_in_month_12: "days_in_month y 12 = 31"
  by (simp add: days_in_month_def)

lemma days_before_month_12: "days_before_month y 12 = (if is_leap y then 335 else 334)"
  by (simp add: days_before_month_def)

lemma days_before_month_1: "days_before_month y 1 = 0"
  by (simp add: days_before_month_def)

lemma ymd2ord_next_date:
  assumes "1 \<le> m" "m \<le> 12" "1 \<le> d" "d \<le> days_in_month y m"
    and "next_date (y, m, d) = (y', m', d')"
  shows "ymd2ord y' m' d' = ymd2ord y m d + 1"
proof (cases "d < days_in_month y m")
  case True
  with assms(5) show ?thesis by (auto simp add: next_date_def ymd2ord_def)
next
  case False
  with assms have d: "d = days_in_month y m" by simp
  show ?thesis
  proof (cases "m < 12")
    case True
    with assms(1) have "days_before_month y (m + 1) = days_before_month y m + days_in_month y m"
      by (simp add: days_before_month_Suc)
    with True d assms(5) show ?thesis
      by (auto simp add: next_date_def ymd2ord_def)
  next
    case False
    with assms have m: "m = 12" by simp
    with d assms(5) have "y' = y + 1" "m' = 1" "d' = 1" "d = 31"
      by (auto simp add: next_date_def days_in_month_12)
    with m show ?thesis
      by (simp add: ymd2ord_def days_before_year_Suc days_before_month_12 days_before_month_1)
  qed
qed

lemma next_multiple_bounds:
  assumes "0 \<le> (mi::int)" "mi \<le> 59"
  shows "mi < (mi div 15 + 1) * 15" "(mi div 15 + 1) * 15 \<le> mi + 15"
    "((mi div 15 + 1) * 15) mod 15 = 0" "(60 \<le> (mi div 15 + 1) * 15) = (45 \<le> mi)"
proof -
  define q where "q = mi div 15"
  define r where "r = mi mod 15"
  have eq: "mi = 15 * q + r" by (simp add: q_def r_def)
  have r: "0 \<le> r" "r < 15" by (simp_all add: r_def)
  have ex: "(q + 1) * 15 = 15 * q + 15" by simp
  from eq r show "mi < (mi div 15 + 1) * 15"
    unfolding q_def [symmetric] ex by linarith
  from eq r show "(mi div 15 + 1) * 15 \<le> mi + 15"
    unfolding q_def [symmetric] ex by linarith
  show "((mi div 15 + 1) * 15) mod 15 = 0" by simp
  have "(60 \<le> 15 * q + 15) = (3 \<le> q)" by linarith
  moreover have "(3 \<le> q) = (45 \<le> mi)"
  proof
    assume "3 \<le> q"
    with eq r show "45 \<le> mi" by linarith
  next
    assume "45 \<le> mi"
    with eq r show "3 \<le> q" by linarith
  qed
  ultimately show "(60 \<le> (mi div 15 + 1) * 15) = (45 \<le> mi)"
    unfolding q_def [symmetric] ex by simp
qed

lemma compute_same_hour:
  assumes "valid_datetime now" "minute now < 45"
  shows "compute now =
    Inr (ticker_of (now\<lparr>minute := (minute now div 15 + 1) * 15, second := 0, microsecond := 0\<rparr>),
         now\<lparr>minute := (minute now div 15 + 1) * 15, second := 0, microsecond := 0\<rparr>)"
proof -
  from assms have mi: "0 \<le> minute now" "minute now \<le> 59"
    by (simp_all add: valid_datetime_def)
  from assms(2) next_multiple_bounds(4) [OF mi] have lt: "\<not> 60 \<le> (minute now div 15 + 1) * 15"
    by simp
  from mi next_multiple_bounds(1) [OF mi] have ge: "0 \<le> (minute now div 15 + 1) * 15"
    by linarith
  from lt have le: "(minute now div 15 + 1) * 15 \<le> 59" by linarith
  show ?thesis
    unfolding compute_def Let_def using lt ge le by (simp add: replace_def)
qed

lemma add_hour_fields:
  assumes "0 \<le> (h::int)" "h \<le> 22"
  shows "(h * 3600000000 + 3600000000) div 86400000000 = 0"
    "(h * 3600000000 + 3600000000) mod 86400000000 = (h + 1) * 3600000000"
proof -
  have eq: "h * 3600000000 + 3600000000 = (h + 1) * 3600000000" by (simp add: algebra_simps)
  from assms have b: "0 \<le> (h + 1) * 3600000000" "(h + 1) * 3600000000 < 86400000000"
    by simp_all
  show "(h * 3600000000 + 3600000000) div 86400000000 = 0"
    unfolding eq using b by (rule div_pos_pos_trivial)
  show "(h * 3600000000 + 3600000000) mod 86400000000 = (h + 1) * 3600000000"
    unfolding eq using b by (rule mod_pos_pos_trivial)
qed

lemma whole_hours_fields:
  "(k::int) * 3600000000 div 3600000000 = k"
  "k * 3600000000 div 60000000 mod 60 = 0"
  "k * 3600000000 div 1000000 mod 60 = 0"
  "k * 3600000000 mod 1000000 = 0"
proof -
  show "k * 3600000000 div 3600000000 = k" by simp
  have a: "k * 3600000000 = (k * 60) * 60000000" by simp
  show "k * 3600000000 div 60000000 mod 60 = 0" unfolding a by simp
  have b: "k * 3600000000 = (k * 3600) * 1000000" by simp
  have c: "k * 3600 = (k * 60) * 60" by simp
  show "k * 3600000000 div 1000000 mod 60 = 0" unfolding b by (simp add: c del: mult.commute)
  show "k * 3600000000 mod 1000000 = 0" unfolding b by simp
qed

lemma add_timedelta_eq:
  assumes "micros_of_day t + delta = us"
    and "us div 86400000000 = k" and "us mod 86400000000 = r"
    and "shift_date k (year t, month t, day t) = (y, m, d)"
  shows "add_timedelta t delta =
     (if MINYEAR \<le> y \<and> y \<le> MAXYEAR
      then Inr \<lparr>year = y, month = m, day = d,
                hour = r div 3600000000,
                minute = r div 60000000 mod 60,
                second = r div 1000000 mod 60,
                microsecond = r mod 1000000\<rparr>
      else Inl OverflowError)"
  unfolding add_timedelta_def Let_def assms by simp

lemma micros_of_day_whole_hour:
  "micros_of_day (t\<lparr>minute := 0, second := 0, microsecond := 0\<rparr>) = hour t * 3600000000"
  by (simp add: micros_of_day_def)

lemma compute_next_hour:
  assumes "valid_datetime now" "45 \<le> minute now" "hour now \<le> 22"
  shows "compute now =
    Inr (ticker_of \<lparr>year = year now, month = month now, day = day now, hour = hour now + 1,
                     minute = 0, second = 0, microsecond = 0\<rparr>,
         \<lparr>year = year now, month = month now, day = day now, hour = hour now + 1,
            minute = 0, second = 0, microsecond = 0\<rparr>)"
proof -
  let ?t = "now\<lparr>minute := 0, second := 0, microsecond := 0\<rparr>"
  from assms have mi: "0 \<le> minute now" "minute now \<le> 59" and h: "0 \<le> hour now"
    and y: "MINYEAR \<le> year now" "year now \<le> MAXYEAR"
    by (simp_all add: valid_datetime_def)
  from assms(2) next_multiple_bounds(4) [OF mi] have ge: "60 \<le> (minute now div 15 + 1) * 15"
    by simp
  have tot: "micros_of_day ?t + 3600000000 = hour now * 3600000000 + 3600000000"
    by (simp add: micros_of_day_whole_hour)
  have sh: "shift_date 0 (year ?t, month ?t, day ?t) = (year now, month now, day now)"
    by (simp add: shift_date_def)
  have add: "add_timedelta ?t 3600000000
      = Inr \<lparr>year = year now, month = month now, day = day now, hour = hour now + 1,
            minute = 0, second = 0, microsecond = 0\<rparr>"
    unfolding add_timedelta_eq [OF tot add_hour_fields [OF h assms(3)] sh]
    using y by (simp add: whole_hours_fields)
  have rep: "replace now 0 0 0 = Inr ?t" by (simp add: replace_def)
  show ?thesis
    unfolding compute_def Let_def using ge by (simp add: rep add)
qed

lemma compute_next_day:
  assumes "valid_datetime now" "45 \<le> minute now" "hour now = 23"
    and "next_date (year now, month now, day now) = (y', m', d')"
  shows "compute now =
    (if y' \<le> MAXYEAR
     then Inr (ticker_of \<lparr>year = y', month = m', day = d', hour = 0,
                     minute = 0, second = 0, microsecond = 0\<rparr>,
         \<lparr>year = y', month = m', day = d', hour = 0,
            minute = 0, second = 0, microsecond = 0\<rparr>)
     else Inl OverflowError)"
proof -
  let ?t = "now\<lparr>minute := 0, second := 0, microsecond := 0\<rparr>"
  from assms have mi: "0 \<le> minute now" "minute now \<le> 59"
    and y: "MINYEAR \<le> year now"
    by (simp_all add: valid_datetime_def)
  from assms(2) next_multiple_bounds(4) [OF mi] have ge: "60 \<le> (minute now div 15 + 1) * 15"
    by simp
  from assms(4) have "year now \<le> y'"
    by (auto simp add: next_date_def split: if_splits)
  with y have y': "MINYEAR \<le> y'" by simp
  have tot: "micros_of_day ?t + 3600000000 = 86400000000"
    by (simp add: micros_of_day_whole_hour assms(3))
  have k: "(86400000000::int) div 86400000000 = 1" and r: "(86400000000::int) mod 86400000000 = 0"
    by simp_all
  have sh: "shift_date 1 (year ?t, month ?t, day ?t) = (y', m', d')"
    using assms(4) by (simp add: shift_date_def)
  have add: "add_timedelta ?t 3600000000
      = (if y' \<le> MAXYEAR
         then Inr \<lparr>year = y', month = m', day = d', hour = 0,
            minute = 0, second = 0, microsecond = 0\<rparr>
         else Inl OverflowError)"
    unfolding add_timedelta_eq [OF tot k r sh] using y' by simp
  have rep: "replace now 0 0 0 = Inr ?t" by (simp add: replace_def)
  show ?thesis
    unfolding compute_def Let_def using ge by (simp add: rep add)
qed

lemma same_hour_ok:
  assumes "valid_datetime now" "minute now < 45"
  shows "expiry_ok now
    (now\<lparr>minute := (minute now div 15 + 1) * 15, second := 0, microsecond := 0\<rparr>)"
proof -
  define nm where "nm = (minute now div 15 + 1) * 15"
  from assms have mi: "0 \<le> minute now" "minute now \<le> 59"
    and s: "0 \<le> second now" "second now \<le> 59"
    and u: "0 \<le> microsecond now" "microsecond now \<le> 999999"
    by (simp_all add: valid_datetime_def)
  note b = next_multiple_bounds [OF mi, folded nm_def]
  from assms(2) b(4) have lt: "nm < 60" by simp
  from b(1) mi have ge: "0 \<le> nm" by linarith
  have gt: "dt_gt (now\<lparr>minute := nm, second := 0, microsecond := 0\<rparr>) now"
    using b(1) by (simp add: dt_gt_def getstate_def)
  have sub: "dt_sub (now\<lparr>minute := nm, second := 0, microsecond := 0\<rparr>) now
      = (nm - minute now) * 60000000 - second now * 1000000 - microsecond now"
    by (simp add: dt_sub_def toordinal_def micros_of_day_def algebra_simps)
  have d1: "1 \<le> nm - minute now" "nm - minute now \<le> 15" using b(1,2) by linarith+
  then have "60000000 \<le> (nm - minute now) * 60000000"
    "(nm - minute now) * 60000000 \<le> 900000000" by simp_all
  with s u have sub_b: "0 < (nm - minute now) * 60000000 - second now * 1000000 - microsecond now"
    "(nm - minute now) * 60000000 - second now * 1000000 - microsecond now \<le> 900000000"
    by linarith+
  have m60: "nm mod 60 = nm" using lt ge by simp
  have v: "valid_datetime (now\<lparr>minute := nm, second := 0, microsecond := 0\<rparr>)"
    using assms(1) lt ge by (simp add: valid_datetime_def)
  show ?thesis
    unfolding expiry_ok_def nm_def [symmetric]
    using gt sub sub_b v b(3) m60 by simp
qed

lemma carry_minute:
  assumes "45 \<le> (mi::int)" "mi \<le> 59"
  shows "((mi div 15 + 1) * 15) mod 60 = 0"
proof -
  have "mi div 15 = 3"
  proof (rule int_div_pos_eq)
    show "mi = 15 * 3 + (mi - 45)" by simp
    show "0 \<le> mi - 45" using assms by simp
    show "mi - 45 < 15" using assms by simp
  qed
  then show ?thesis by simp
qed

lemma next_hour_ok:
  assumes "valid_datetime now" "45 \<le> minute now" "hour now \<le> 22"
  shows "expiry_ok now
    \<lparr>year = year now, month = month now, day = day now, hour = hour now + 1,
       minute = 0, second = 0, microsecond = 0\<rparr>"
proof -
  let ?ex = "\<lparr>year = year now, month = month now, day = day now, hour = hour now + 1,
       minute = 0, second = 0, microsecond = 0\<rparr>"
  from assms have mi: "0 \<le> minute now" "minute now \<le> 59"
    and s: "0 \<le> second now" "second now \<le> 59"
    and u: "0 \<le> microsecond now" "microsecond now \<le> 999999"
    by (simp_all add: valid_datetime_def)
  have gt: "dt_gt ?ex now" by (simp add: dt_gt_def getstate_def)
  have sub: "dt_sub ?ex now
      = (60 - minute now) * 60000000 - second now * 1000000 - microsecond now"
    by (simp add: dt_sub_def toordinal_def micros_of_day_def algebra_simps)
  from assms(2) mi have "60000000 \<le> (60 - minute now) * 60000000"
    "(60 - minute now) * 60000000 \<le> 900000000" by simp_all
  with s u have sub_b: "0 < (60 - minute now) * 60000000 - second now * 1000000 - microsecond now"
    "(60 - minute now) * 60000000 - second now * 1000000 - microsecond now \<le> 900000000"
    by linarith+
  have v: "valid_datetime ?ex"
    using assms(1,3) by (simp add: valid_datetime_def)
  show ?thesis
    unfolding expiry_ok_def
    using gt sub sub_b v carry_minute [OF assms(2) mi(2)] by simp
qed

lemma days_in_month_ge:
  assumes "1 \<le> m" "m \<le> 12"
  shows "28 \<le> days_in_month y m"
proof -
  from assms have "m = 1 \<or> m = 2 \<or> m = 3 \<or> m = 4 \<or> m = 5 \<or> m = 6 \<or> m = 7 \<or> m = 8 \<or>
      m = 9 \<or> m = 10 \<or> m = 11 \<or> m = 12"
    by arith
  then show ?thesis
    by (elim disjE) (simp_all add: days_in_month_def)
qed

lemma next_day_ok:
  assumes "valid_datetime now" "45 \<le> minute now" "hour now = 23"
    and "next_date (year now, month now, day now) = (y', m', d')" and "y' \<le> MAXYEAR"
  shows "expiry_ok now
    \<lparr>year = y', month = m', day = d', hour = 0, minute = 0, second = 0, microsecond = 0\<rparr>"
proof -
  let ?ex = "\<lparr>year = y', month = m', day = d', hour = 0, minute = 0, second = 0,
       microsecond = 0\<rparr>"
  from assms have mi: "0 \<le> minute now" "minute now \<le> 59"
    and s: "0 \<le> second now" "second now \<le> 59"
    and u: "0 \<le> microsecond now" "microsecond now \<le> 999999"
    and dte: "1 \<le> month now" "month now \<le> 12" "1 \<le> day now"
      "day now \<le> days_in_month (year now) (month now)"
    and y: "MINYEAR \<le> year now"
    by (simp_all add: valid_datetime_def)
  have ord: "ymd2ord y' m' d' = ymd2ord (year now) (month now) (day now) + 1"
    using dte assms(4) by (rule ymd2ord_next_date)
  have gt: "dt_gt ?ex now"
    using assms(4) by (auto simp add: dt_gt_def getstate_def next_date_def split: if_splits)
  have sub: "dt_sub ?ex now
      = (60 - minute now) * 60000000 - second now * 1000000 - microsecond now"
    by (simp add: dt_sub_def toordinal_def ord micros_of_day_def assms(3) algebra_simps)
  from assms(2) mi have "60000000 \<le> (60 - minute now) * 60000000"
    "(60 - minute now) * 60000000 \<le> 900000000" by simp_all
  with s u have sub_b: "0 < (60 - minute now) * 60000000 - second now * 1000000 - microsecond now"
    "(60 - minute now) * 60000000 - second now * 1000000 - microsecond now \<le> 900000000"
    by linarith+
  have dv: "1 \<le> m' \<and> m' \<le> 12 \<and> 1 \<le> d' \<and> d' \<le> days_in_month y' m' \<and> year now \<le> y'"
  proof (cases "day now < days_in_month (year now) (month now)")
    case True
    with assms(4) dte show ?thesis by (auto simp add: next_date_def)
  next
    case False
    show ?thesis
    proof (cases "month now < 12")
      case True
      with dte have "28 \<le> days_in_month (year now) (month now + 1)"
        by (intro days_in_month_ge) simp_all
      with True False assms(4) dte show ?thesis by (auto simp add: next_date_def)
    next
      case notlt: False
      have "28 \<le> days_in_month (year now + 1) 1" by (rule days_in_month_ge) simp_all
      with notlt False assms(4) show ?thesis by (auto simp add: next_date_def)
    qed
  qed
  with y assms(5) have v: "valid_datetime ?ex"
    by (simp add: valid_datetime_def)
  show ?thesis
    unfolding expiry_ok_def
    using gt sub sub_b v carry_minute [OF assms(2) mi(2)] by simp
qed

lemma next_date_year:
  assumes "valid_datetime now" "\<not> end_of_time now" "hour now = 23" "45 \<le> minute now"
    and "next_date (year now, month now, day now) = (y', m', d')"
  shows "y' \<le> MAXYEAR"
proof -
  from assms(1) have y: "year now \<le> MAXYEAR" and d: "day now \<le> days_in_month (year now) (month now)"
    and m: "month now \<le> 12"
    by (simp_all add: valid_datetime_def)
  show ?thesis
  proof (cases "year now = MAXYEAR")
    case False
    with y have "year now + 1 \<le> MAXYEAR" by simp
    with assms(5) y show ?thesis by (auto simp add: next_date_def split: if_splits)
  next
    case True
    with assms(2,3,4) have "month now \<noteq> 12 \<or> day now \<noteq> 31"
      by (simp add: end_of_time_def)
    with d m have "day now < days_in_month (year now) (month now) \<or> month now < 12"
      by (cases "month now = 12") (auto simp add: days_in_month_12)
    with assms(5) y show ?thesis by (auto simp add: next_date_def split: if_splits)
  qed
qed

lemma compute_ok:
  assumes "valid_datetime now" "\<not> end_of_time now"
  shows "\<exists>ex. compute now = Inr (ticker_of ex, ex) \<and> expiry_ok now ex"
proof (cases "minute now < 45")
  case True
  with assms(1) show ?thesis
    using compute_same_hour same_hour_ok by blast
next
  case False
  then have mi: "45 \<le> minute now" by simp
  show ?thesis
  proof (cases "hour now \<le> 22")
    case True
    with assms(1) mi show ?thesis
      using compute_next_hour next_hour_ok by blast
  next
    case False
    with assms(1) have h: "hour now = 23" by (simp add: valid_datetime_def)
    obtain y' m' d' where nd: "next_date (year now, month now, day now) = (y', m', d')"
      by (cases "next_date (year now, month now, day now)") auto
    from assms h mi nd have y': "y' \<le> MAXYEAR" by (rule next_date_year)
    from compute_next_day [OF assms(1) mi h nd] y'
    have "compute now = Inr (ticker_of \<lparr>year = y', month = m', day = d', hour = 0,
                     minute = 0, second = 0, microsecond = 0\<rparr>,
         \<lparr>year = y', month = m', day = d', hour = 0,
            minute = 0, second = 0, microsecond = 0\<rparr>)"
      by simp
    with next_day_ok [OF assms(1) mi h nd y'] show ?thesis by blast
  qed
qed

lemma compute_overflow:
  assumes "valid_datetime now" "end_of_time now"
  shows "compute now = Inl OverflowError"
proof -
  from assms(2) have e: "year now = MAXYEAR" "month now = 12" "day now = 31" "hour now = 23"
    "45 \<le> minute now" by (simp_all add: end_of_time_def)
  have nd: "next_date (year now, month now, day now) = (MAXYEAR + 1, 1, 1)"
    by (simp add: next_date_def e days_in_month_12)
  from compute_next_day [OF assms(1) e(5) e(4) nd] show ?thesis by simp
qed

lemma scenario_12_07:
  assumes "valid_datetime now" "hour now = 12" "minute now = 7"
  shows "compute now =
      Inr (ticker_of \<lparr>year = year now, month = month now, day = day now, hour = 12,
             minute = 15, second = 0, microsecond = 0\<rparr>,
           \<lparr>year = year now, month = month now, day = day now, hour = 12,
             minute = 15, second = 0, microsecond = 0\<rparr>)"
    "contract_start_of \<lparr>year = year now, month = month now, day = day now, hour = 12,
             minute = 15, second = 0, microsecond = 0\<rparr>
      = Inr \<lparr>year = year now, month = month now, day = day now, hour = 12,
             minute = 0, second = 0, microsecond = 0\<rparr>"
proof -
  from assms have lt: "minute now < 45" by simp
  from assms(2) have req: "now\<lparr>minute := 15, second := 0, microsecond := 0\<rparr>
      = \<lparr>year = year now, month = month now, day = day now, hour = 12,
             minute = 15, second = 0, microsecond = 0\<rparr>"
    by (cases now) simp
  from compute_same_hour [OF assms(1) lt] assms(3) req
  show "compute now =
      Inr (ticker_of \<lparr>year = year now, month = month now, day = day now, hour = 12,
             minute = 15, second = 0, microsecond = 0\<rparr>,
           \<lparr>year = year now, month = month now, day = day now, hour = 12,
             minute = 15, second = 0, microsecond = 0\<rparr>)"
    by simp
  from assms(1) have y: "MINYEAR \<le> year now" "year now \<le> MAXYEAR"
    by (simp_all add: valid_datetime_def)
  let ?ex = "\<lparr>year = year now, month = month now, day = day now, hour = 12,
             minute = 15, second = 0, microsecond = 0\<rparr>"
  have tot: "micros_of_day ?ex + - (15 * 60000000) = 43200000000"
    by (simp add: micros_of_day_def)
  have k: "(43200000000::int) div 86400000000 = 0"
    and r: "(43200000000::int) mod 86400000000 = 43200000000"
    by simp_all
  have sh: "shift_date 0 (year ?ex, month ?ex, day ?ex) = (year now, month now, day now)"
    by (simp add: shift_date_def)
  show "contract_start_of ?ex
      = Inr \<lparr>year = year now, month = month now, day = day now, hour = 12,
             minute = 0, second = 0, microsecond = 0\<rparr>"
    unfolding contract_start_of_def add_timedelta_eq [OF tot k r sh] using y by simp
qed

lemma compute_Inr_ticker:
  assumes "compute now = Inr (tk, ex)"
  shows "tk = ticker_of ex"
  using assms unfolding compute_def Let_def by (auto split: sum.splits if_splits)

lemma digit_value_digit_char:
  assumes "0 \<le> v" "v < 10"
  shows "digit_value (digit_char v) = Some v"
proof -
  from assms have "v \<in> {9, 8, 7, 6, 5, 4, 3, 2, 1, 0}"
    by (simp add: insert_iff) arith
  then show ?thesis
    by (auto simp add: digit_value_def digit_char_def)
qed

lemma read_two_digits_two_digits:
  assumes "0 \<le> n" "n < 100"
  shows "read_two_digits (two_digits n) = Some n"
proof -
  from assms have q: "0 \<le> n div 10" "n div 10 < 10" by simp_all
  have r: "0 \<le> n mod 10" "n mod 10 < 10" by simp_all
  have "10 * (n div 10) + n mod 10 = n" by simp
  with digit_value_digit_char [OF q] digit_value_digit_char [OF r] show ?thesis
    by (simp add: read_two_digits_def two_digits_def)
qed

lemma upper_month_abbr:
  assumes "1 \<le> m" "m \<le> 12"
  shows "upper (month_abbr m) = MON ! nat (m - 1) \<and> (\<exists>a b c. upper (month_abbr m) = [a, b, c])"
proof -
  from assms have "m = 1 \<or> m = 2 \<or> m = 3 \<or> m = 4 \<or> m = 5 \<or> m = 6 \<or> m = 7 \<or> m = 8 \<or>
      m = 9 \<or> m = 10 \<or> m = 11 \<or> m = 12"
    by arith
  then show ?thesis
    by (elim disjE) (simp_all add: upper_def upper_char_def month_abbr_def MON_def)
qed

lemma days_in_month_le:
  assumes "1 \<le> m" "m \<le> 12"
  shows "days_in_month y m \<le> 31"
proof -
  from assms have "m = 1 \<or> m = 2 \<or> m = 3 \<or> m = 4 \<or> m = 5 \<or> m = 6 \<or> m = 7 \<or> m = 8 \<or>
      m = 9 \<or> m = 10 \<or> m = 11 \<or> m = 12"
    by arith
  then show ?thesis
    by (elim disjE) (simp_all add: days_in_month_def)
qed

lemma ticker_of_fields:
  assumes "valid_datetime ex"
  shows "take 9 (ticker_of ex) = ''KXBTC15M-''"
    "read_two_digits (take 2 (drop 9 (ticker_of ex))) = Some (year ex mod 100)"
    "take 3 (drop 11 (ticker_of ex)) = MON ! nat (month ex - 1)"
    "read_two_digits (take 2 (drop 14 (ticker_of ex))) = Some (day ex)"
    "read_two_digits (take 2 (drop 16 (ticker_of ex))) = Some (hour ex)"
    "read_two_digits (take 2 (drop 18 (ticker_of ex))) = Some (minute ex)"
    "take 1 (drop 20 (ticker_of ex)) = ''-''"
    "read_two_digits (drop 21 (ticker_of ex)) = Some (minute ex)"
    "length (ticker_of ex) = 23"
proof -
  from assms have m: "1 \<le> month ex" "month ex \<le> 12"
    and d0: "1 \<le> day ex" "day ex \<le> days_in_month (year ex) (month ex)"
    and h: "0 \<le> hour ex" "hour ex < 100"
    and mi: "0 \<le> minute ex" "minute ex < 100"
    by (simp_all add: valid_datetime_def)
  from d0 days_in_month_le [OF m, of "year ex"] have d: "0 \<le> day ex" "day ex < 100"
    by linarith+
  have y: "0 \<le> year ex mod 100" "year ex mod 100 < 100" by simp_all
  from upper_month_abbr [OF m] obtain a b c where
    mon: "upper (month_abbr (month ex)) = [a, b, c]" by blast
  with upper_month_abbr [OF m] have mon': "MON ! nat (month ex - 1) = [a, b, c]" by simp
  have t: "ticker_of ex = ''KXBTC15M-'' @ two_digits (year ex mod 100) @ [a, b, c]
      @ two_digits (day ex) @ two_digits (hour ex) @ two_digits (minute ex) @ ''-''
      @ two_digits (minute ex)"
    by (simp add: ticker_of_def Let_def mon)
  have l: "\<And>n. \<exists>p q. two_digits n = [p, q]" by (simp add: two_digits_def)
  obtain y1 y2 where ys: "two_digits (year ex mod 100) = [y1, y2]" using l by blast
  obtain d1 d2 where ds: "two_digits (day ex) = [d1, d2]" using l by blast
  obtain h1 h2 where hs: "two_digits (hour ex) = [h1, h2]" using l by blast
  obtain m1 m2 where ms: "two_digits (minute ex) = [m1, m2]" using l by blast
  note rd = read_two_digits_two_digits
  show "take 9 (ticker_of ex) = ''KXBTC15M-''" unfolding t by simp
  show "read_two_digits (take 2 (drop 9 (ticker_of ex))) = Some (year ex mod 100)"
    using rd [OF y] unfolding t ys ds hs ms by simp
  show "take 3 (drop 11 (ticker_of ex)) = MON ! nat (month ex - 1)"
    unfolding t ys ds hs ms mon' by simp
  show "read_two_digits (take 2 (drop 14 (ticker_of ex))) = Some (day ex)"
    using rd [OF d] unfolding t ys ds hs ms by simp
  show "read_two_digits (take 2 (drop 16 (ticker_of ex))) = Some (hour ex)"
    using rd [OF h] unfolding t ys ds hs ms by simp
  show "read_two_digits (take 2 (drop 18 (ticker_of ex))) = Some (minute ex)"
    using rd [OF mi] unfolding t ys ds hs ms by simp
  show "take 1 (drop 20 (ticker_of ex)) = ''-''" unfolding t ys ds hs ms by simp
  show "read_two_digits (drop 21 (ticker_of ex)) = Some (minute ex)"
    using rd [OF mi] unfolding t ys ds hs ms by simp
  show "length (ticker_of ex) = 23" unfolding t ys ds hs ms by simp
qed

section \<open>Facts about the floats\<close>

lemma bit_length_upper: "n < 2 ^ bit_length n"
proof (induction n rule: bit_length.induct)
  case (1 n)
  show ?case
  proof (cases "n = 0")
    case True
    then show ?thesis by (simp add: bit_length.simps)
  next
    case False
    with 1 have "n div 2 < 2 ^ bit_length (n div 2)" by simp
    then have "n < 2 * 2 ^ bit_length (n div 2)" by linarith
    with False show ?thesis by (simp add: bit_length.simps [of n])
  qed
qed

lemma bit_length_lower: "0 < n \<Longrightarrow> 2 ^ bit_length n \<le> 2 * n"
proof (induction n rule: bit_length.induct)
  case (1 n)
  then have n: "n \<noteq> 0" by simp
  show ?case
  proof (cases "n div 2 = 0")
    case True
    with n have "n = 1" by linarith
    then show ?thesis by (simp add: bit_length.simps)
  next
    case False
    with 1 n have "2 ^ bit_length (n div 2) \<le> 2 * (n div 2)" by simp
    also have "\<dots> \<le> n" by simp
    finally show ?thesis using n by (simp add: bit_length.simps [of n])
  qed
qed

lemma two_powi_pos: "0 < (2::rat) powi e"
  by simp

lemma two_powi_add: "(2::rat) powi (a + b) = 2 powi a * 2 powi b"
  by (simp add: power_int_add)

lemma two_powi_less: "a < b \<Longrightarrow> (2::rat) powi a < 2 powi b"
  by (rule power_int_strict_increasing) simp_all

lemma two_powi_le: "a \<le> b \<Longrightarrow> (2::rat) powi a \<le> 2 powi b"
  by (rule power_int_increasing) simp_all

lemma two_powi_less_cancel: "(2::rat) powi a < 2 powi b \<Longrightarrow> a < b"
  using two_powi_le [of b a] by (cases "a < b") simp_all

lemma ilog2_bounds:
  assumes "0 < a"
  shows "2 powi ilog2 a \<le> a" and "a < 2 powi (ilog2 a + 1)"
proof -
  obtain p q where pq: "quotient_of a = (p, q)" by (cases "quotient_of a")
  then have q: "0 < q" and a: "a = of_int p / of_int q"
    by (simp_all add: quotient_of_denom_pos quotient_of_div)
  with assms have p: "0 < p" by (simp add: zero_less_divide_iff)
  define u where "u = int (bit_length (nat p))"
  define v where "v = int (bit_length (nat q))"
  have "nat p < 2 ^ bit_length (nat p)" by (rule bit_length_upper)
  then have "int (nat p) < int (2 ^ bit_length (nat p))" by (simp only: of_nat_less_iff)
  with p have pu: "(of_int p :: rat) < 2 powi u"
    unfolding u_def power_int_of_nat
    by (metis of_int_less_iff of_int_numeral of_int_power int_nat_eq less_le of_nat_numeral
        of_nat_power)
  have "nat q < 2 ^ bit_length (nat q)" by (rule bit_length_upper)
  then have "int (nat q) < int (2 ^ bit_length (nat q))" by (simp only: of_nat_less_iff)
  with q have qu: "(of_int q :: rat) < 2 powi v"
    unfolding v_def power_int_of_nat
    by (metis of_int_less_iff of_int_numeral of_int_power int_nat_eq less_le of_nat_numeral
        of_nat_power)
  from p have "2 ^ bit_length (nat p) \<le> 2 * nat p" by (intro bit_length_lower) simp
  then have "int (2 ^ bit_length (nat p)) \<le> int (2 * nat p)" by (simp only: of_nat_le_iff)
  with p have "(2::int) ^ bit_length (nat p) \<le> 2 * p" by simp
  then have "(of_int ((2::int) ^ bit_length (nat p)) :: rat) \<le> of_int (2 * p)"
    by (simp only: of_int_le_iff)
  then have pl: "(2::rat) powi u \<le> 2 * of_int p"
    unfolding u_def power_int_of_nat by simp
  from q have "2 ^ bit_length (nat q) \<le> 2 * nat q" by (intro bit_length_lower) simp
  then have "int (2 ^ bit_length (nat q)) \<le> int (2 * nat q)" by (simp only: of_nat_le_iff)
  with q have "(2::int) ^ bit_length (nat q) \<le> 2 * q" by simp
  then have "(of_int ((2::int) ^ bit_length (nat q)) :: rat) \<le> of_int (2 * q)"
    by (simp only: of_int_le_iff)
  then have ql: "(2::rat) powi v \<le> 2 * of_int q"
    unfolding v_def power_int_of_nat by simp
  have qpos: "(0::rat) < of_int q" using q by simp
  have aq: "a * of_int q = of_int p" using a qpos by simp
  have e0: "ilog2 a = (if 2 powi (u - v) \<le> a then u - v else u - v - 1)"
    by (simp add: ilog2_def pq u_def v_def Let_def)
  have up: "a < 2 powi (u - v + 1)"
  proof -
    have s1: "(2::rat) powi u = 2 powi (u - v) * 2 powi v"
      by (simp flip: two_powi_add)
    have s2: "(2::rat) powi (u - v) * 2 powi v \<le> 2 powi (u - v) * (2 * of_int q)"
      using ql by (intro mult_left_mono) simp_all
    have s3: "(2::rat) powi (u - v) * (2 * of_int q) = 2 powi (u - v + 1) * of_int q"
      by (simp add: two_powi_add)
    from s1 s2 s3 have "(2::rat) powi u \<le> 2 powi (u - v + 1) * of_int q" by simp
    with pu aq have "a * of_int q < 2 powi (u - v + 1) * of_int q" by simp
    with qpos show ?thesis by (simp only: mult_less_cancel_right_pos)
  qed
  have lo: "2 powi (u - v - 1) \<le> a"
  proof -
    have s1: "(2::rat) powi (u - v - 1) * of_int q \<le> 2 powi (u - v - 1) * 2 powi v"
      using qu by (intro mult_left_mono) simp_all
    have s2: "(2::rat) powi (u - v - 1) * 2 powi v = 2 powi (u - 1)"
      by (simp flip: two_powi_add)
    have s3: "2 * (2::rat) powi (u - 1) = 2 powi u"
      using two_powi_add [of 1 "u - 1"] by simp
    from s1 s2 s3 have "2 * (2 powi (u - v - 1) * of_int q) \<le> (2::rat) powi u" by simp
    with pl have "2 powi (u - v - 1) * of_int q \<le> (of_int p :: rat)" by linarith
    with aq have "2 powi (u - v - 1) * of_int q \<le> a * of_int q" by simp
    with qpos show ?thesis by (simp only: mult_le_cancel_right_pos)
  qed
  show "2 powi ilog2 a \<le> a"
    unfolding e0 using lo by simp
  show "a < 2 powi (ilog2 a + 1)"
    unfolding e0 using up by (simp add: not_le)
qed

lemma round_half_even_ge: "of_int j \<le> m \<Longrightarrow> j \<le> round_half_even m"
proof -
  assume "of_int j \<le> m"
  then have "j \<le> \<lfloor>m\<rfloor>" by (simp add: le_floor_iff)
  then show ?thesis by (simp add: round_half_even_def Let_def)
qed

lemma round_half_even_le: "m \<le> of_int j \<Longrightarrow> round_half_even m \<le> j"
proof (cases "m = of_int j")
  case True
  then show ?thesis by (simp add: round_half_even_def Let_def)
next
  case False
  assume "m \<le> of_int j"
  with False have "m < of_int j" by simp
  then have "\<lfloor>m\<rfloor> < j" by (simp add: floor_less_iff)
  then show ?thesis by (simp add: round_half_even_def Let_def)
qed

lemma nearest_double_pos:
  "0 < x \<Longrightarrow>
   nearest_double x = of_int (round_half_even (x / 2 powi quantum_exp x)) * 2 powi quantum_exp x"
  by (simp add: nearest_double_def Let_def)

lemma nearest_double_minus: "nearest_double (- x) = - nearest_double x"
  by (simp add: nearest_double_def Let_def sgn_minus)

lemma nearest_double_nonneg: "0 \<le> x \<Longrightarrow> 0 \<le> nearest_double x"
proof (cases "x = 0")
  case True
  then show ?thesis by (simp add: nearest_double_def)
next
  case False
  assume "0 \<le> x"
  with False have x: "0 < x" by simp
  then have "(of_int 0 :: rat) \<le> x / 2 powi quantum_exp x" by simp
  then have "0 \<le> round_half_even (x / 2 powi quantum_exp x)" by (rule round_half_even_ge)
  with x show ?thesis by (simp add: nearest_double_pos)
qed

lemma nearest_double_nonpos: "x \<le> 0 \<Longrightarrow> nearest_double x \<le> 0"
  using nearest_double_nonneg [of "- x"] by (simp add: nearest_double_minus)

text \<open>A double \<open>j * 2 powi g\<close> with a mantissa of at most 53 bits is not crossed by rounding.\<close>

lemma nearest_double_ge_anchor:
  assumes j: "0 < j" "j < 2 ^ 53" and g: "- 1074 \<le> g"
    and cx: "of_int j * 2 powi g \<le> x"
  shows "of_int j * 2 powi g \<le> nearest_double x"
proof -
  let ?E = "quantum_exp x"
  have c: "(0::rat) < of_int j * 2 powi g" using j by simp
  with cx have x: "0 < x" by simp
  have nd: "nearest_double x = of_int (round_half_even (x / 2 powi ?E)) * 2 powi ?E"
    using x by (rule nearest_double_pos)
  show ?thesis
  proof (cases "?E \<le> g")
    case True
    define J where "J = j * 2 ^ nat (g - ?E)"
    have "(2::rat) powi g = 2 powi (g - ?E) * 2 powi ?E" by (simp flip: two_powi_add)
    moreover have "(2::rat) powi (g - ?E) = 2 ^ nat (g - ?E)"
      using True by (simp add: power_int_def)
    ultimately have cJ: "(of_int j :: rat) * 2 powi g = of_int J * 2 powi ?E"
      by (simp add: J_def)
    with cx have "of_int J * 2 powi ?E \<le> x" by simp
    then have "of_int J \<le> x / 2 powi ?E" by (simp add: pos_le_divide_eq)
    then have "J \<le> round_half_even (x / 2 powi ?E)" by (rule round_half_even_ge)
    then have "(of_int J :: rat) \<le> of_int (round_half_even (x / 2 powi ?E))" by simp
    then have "(of_int J :: rat) * 2 powi ?E \<le> of_int (round_half_even (x / 2 powi ?E)) * 2 powi ?E"
      by (intro mult_right_mono) simp_all
    with cJ nd show ?thesis by simp
  next
    case False
    then have gE: "g + 1 \<le> ?E" by simp
    with g have E: "?E = ilog2 x - 52" by (simp add: quantum_exp_def max_def split: if_splits)
    from ilog2_bounds(1) [OF x] have "2 powi (?E + 52) \<le> x" by (simp add: E)
    then have "2 powi 52 * 2 powi ?E \<le> x" by (simp add: two_powi_add mult.commute)
    then have "(2::rat) powi 52 \<le> x / 2 powi ?E" by (simp add: pos_le_divide_eq)
    then have "(of_int (2 ^ 52) :: rat) \<le> x / 2 powi ?E" by simp
    then have "2 ^ 52 \<le> round_half_even (x / 2 powi ?E)" by (rule round_half_even_ge)
    then have "(of_int (2 ^ 52) :: rat) \<le> of_int (round_half_even (x / 2 powi ?E))"
      by (simp only: of_int_le_iff)
    then have "(of_int (2 ^ 52) :: rat) * 2 powi ?E
        \<le> of_int (round_half_even (x / 2 powi ?E)) * 2 powi ?E"
      by (intro mult_right_mono) simp_all
    with nd have lo: "2 ^ 52 * 2 powi ?E \<le> nearest_double x" by simp
    from j(2) have "(of_int j :: rat) \<le> of_int (2 ^ 53)" by (simp only: of_int_le_iff)
    then have "of_int j * 2 powi g \<le> (2 ^ 53 :: rat) * 2 powi g"
      by (intro mult_right_mono) simp_all
    also have "\<dots> = 2 ^ 52 * 2 powi (g + 1)" by (simp add: two_powi_add)
    also have "\<dots> \<le> 2 ^ 52 * 2 powi ?E"
      using gE by (intro mult_left_mono two_powi_le) simp_all
    finally show ?thesis using lo by simp
  qed
qed

lemma nearest_double_le_anchor:
  assumes j: "0 < j" "j < 2 ^ 53" and g: "- 1074 \<le> g"
    and xc: "x \<le> of_int j * 2 powi g"
  shows "nearest_double x \<le> of_int j * 2 powi g"
proof (cases "0 < x")
  case False
  then have "nearest_double x \<le> 0" by (intro nearest_double_nonpos) simp
  moreover have "(0::rat) \<le> of_int j * 2 powi g" using j by simp
  ultimately show ?thesis by simp
next
  case x: True
  let ?E = "quantum_exp x"
  have nd: "nearest_double x = of_int (round_half_even (x / 2 powi ?E)) * 2 powi ?E"
    using x by (rule nearest_double_pos)
  from j(2) have "(of_int j :: rat) < of_int (2 ^ 53)" by (simp only: of_int_less_iff)
  then have "of_int j * 2 powi g < (2 ^ 53 :: rat) * 2 powi g"
    by (intro mult_strict_right_mono) simp_all
  also have "\<dots> = 2 powi (53 + g)" by (simp add: two_powi_add)
  finally have "of_int j * 2 powi g < (2::rat) powi (53 + g)" .
  with xc ilog2_bounds(1) [OF x] have "(2::rat) powi ilog2 x < 2 powi (53 + g)" by simp
  then have "ilog2 x < 53 + g" by (rule two_powi_less_cancel)
  with g have Eg: "?E \<le> g" by (simp add: quantum_exp_def)
  define J where "J = j * 2 ^ nat (g - ?E)"
  have "(2::rat) powi g = 2 powi (g - ?E) * 2 powi ?E" by (simp flip: two_powi_add)
  moreover have "(2::rat) powi (g - ?E) = 2 ^ nat (g - ?E)"
    using Eg by (simp add: power_int_def)
  ultimately have cJ: "(of_int j :: rat) * 2 powi g = of_int J * 2 powi ?E"
    by (simp add: J_def)
  with xc have "x \<le> of_int J * 2 powi ?E" by simp
  then have "x / 2 powi ?E \<le> of_int J" by (simp add: pos_divide_le_eq)
  then have "round_half_even (x / 2 powi ?E) \<le> J" by (rule round_half_even_le)
  then have "(of_int (round_half_even (x / 2 powi ?E)) :: rat) \<le> of_int J" by simp
  then have "(of_int (round_half_even (x / 2 powi ?E)) :: rat) * 2 powi ?E
      \<le> of_int J * 2 powi ?E"
    by (intro mult_right_mono) simp_all
  with cJ nd show ?thesis by simp
qed

lemma nearest_double_exact:
  assumes "0 < j" "j < 2 ^ 53" "- 1074 \<le> g"
  shows "nearest_double (of_int j * 2 powi g) = of_int j * 2 powi g"
  using nearest_double_ge_anchor [OF assms, of "of_int j * 2 powi g"]
    nearest_double_le_anchor [OF assms, of "of_int j * 2 powi g"]
  by simp

text \<open>Comparing \<^verbatim>\<open>total_seconds()\<close> with a whole number of seconds, and the elapsed
  minutes with a whole number of minutes, decides as the microseconds do.\<close>

lemma total_seconds_less_iff:
  assumes "0 < c" "c \<le> 2 ^ 32"
  shows "(total_seconds td < of_int c) = (td < c * 1000000)"
proof
  assume lt: "total_seconds td < of_int c"
  show "td < c * 1000000"
  proof (rule ccontr)
    assume "\<not> td < c * 1000000"
    then have "c * 1000000 \<le> td" by simp
    then have "(of_int (c * 1000000) :: rat) \<le> of_int td" by (simp only: of_int_le_iff)
    then have "of_int c * 2 powi 0 \<le> (of_int td :: rat) / 1000000" by simp
    moreover from assms(2) have "c < 2 ^ 53" by simp
    ultimately have "of_int c * 2 powi 0 \<le> nearest_double (of_int td / 1000000)"
      using assms(1) by (intro nearest_double_ge_anchor) simp_all
    with lt show False by (simp add: total_seconds_def)
  qed
next
  assume "td < c * 1000000"
  then have "td \<le> c * 1000000 - 1" by simp
  then have "(of_int td :: rat) \<le> of_int (c * 1000000 - 1)" by (simp only: of_int_le_iff)
  then have "(of_int td :: rat) / 1000000 \<le> of_int c - 1 / 1000000" by simp
  also have "\<dots> \<le> of_int c - 1 / 1048576" by simp
  also have "\<dots> = of_int (c * 1048576 - 1) * 2 powi (- 20)" by (simp add: field_simps)
  finally have le: "(of_int td :: rat) / 1000000 \<le> of_int (c * 1048576 - 1) * 2 powi (- 20)" .
  from assms have j: "0 < c * 1048576 - 1" "c * 1048576 - 1 < 2 ^ 53" by simp_all
  have "nearest_double (of_int td / 1000000) \<le> of_int (c * 1048576 - 1) * 2 powi (- 20)"
    using j le by (intro nearest_double_le_anchor) simp_all
  also have "\<dots> = of_int c - 1 / 1048576" by (simp add: field_simps)
  also have "\<dots> < of_int c" by simp
  finally show "total_seconds td < of_int c" by (simp add: total_seconds_def)
qed

lemma elapsed_mins_ge_iff:
  assumes "0 < n" "n < 2 ^ 27"
  shows "(of_int n \<le> nearest_double (total_seconds td / 60)) = (n * 60000000 \<le> td)"
proof
  assume "n * 60000000 \<le> td"
  then have "(of_int (n * 60000000) :: rat) \<le> of_int td" by (simp only: of_int_le_iff)
  then have "of_int (60 * n) * 2 powi 0 \<le> (of_int td :: rat) / 1000000" by simp
  moreover from assms have "0 < 60 * n" "60 * n < 2 ^ 53" by simp_all
  ultimately have "of_int (60 * n) * 2 powi 0 \<le> nearest_double (of_int td / 1000000)"
    by (intro nearest_double_ge_anchor) simp_all
  then have "of_int n * 2 powi 0 \<le> total_seconds td / 60" by (simp add: total_seconds_def)
  moreover from assms have "n < 2 ^ 53" by simp
  ultimately have "of_int n * 2 powi 0 \<le> nearest_double (total_seconds td / 60)"
    using assms(1) by (intro nearest_double_ge_anchor) simp_all
  then show "of_int n \<le> nearest_double (total_seconds td / 60)" by simp
next
  assume ge: "of_int n \<le> nearest_double (total_seconds td / 60)"
  show "n * 60000000 \<le> td"
  proof (rule ccontr)
    assume "\<not> n * 60000000 \<le> td"
    then have "td \<le> n * 60000000 - 1" by simp
    then have "(of_int td :: rat) \<le> of_int (n * 60000000 - 1)" by (simp only: of_int_le_iff)
    then have "(of_int td :: rat) / 1000000 \<le> of_int (60 * n) - 1 / 1000000" by simp
    also have "\<dots> \<le> of_int (60 * n) - 1 / 1048576" by simp
    also have "\<dots> = of_int (60 * n * 1048576 - 1) * 2 powi (- 20)" by (simp add: field_simps)
    finally have le: "(of_int td :: rat) / 1000000
        \<le> of_int (60 * n * 1048576 - 1) * 2 powi (- 20)" .
    from assms have j: "0 < 60 * n * 1048576 - 1" "60 * n * 1048576 - 1 < 2 ^ 53" by simp_all
    have "total_seconds td \<le> of_int (60 * n * 1048576 - 1) * 2 powi (- 20)"
      unfolding total_seconds_def using j le by (intro nearest_double_le_anchor) simp_all
    also have "\<dots> = of_int (60 * n) - 1 / 1048576" by (simp add: field_simps)
    finally have "total_seconds td / 60 \<le> of_int n - 1 / 62914560" by (simp add: field_simps)
    also have "\<dots> \<le> of_int n - 1 / 67108864" by simp
    also have "\<dots> = of_int (n * 67108864 - 1) * 2 powi (- 26)" by (simp add: field_simps)
    finally have le2: "total_seconds td / 60 \<le> of_int (n * 67108864 - 1) * 2 powi (- 26)" .
    from assms have j2: "0 < n * 67108864 - 1" "n * 67108864 - 1 < 2 ^ 53" by simp_all
    have "nearest_double (total_seconds td / 60) \<le> of_int (n * 67108864 - 1) * 2 powi (- 26)"
      using j2 le2 by (intro nearest_double_le_anchor) simp_all
    also have "\<dots> = of_int n - 1 / 67108864" by (simp add: field_simps)
    also have "\<dots> < of_int n" by simp
    finally show False using ge by simp
  qed
qed

lemma nearest_double_exact_int:
  assumes "\<bar>k\<bar> < 2 ^ 53" "- 1074 \<le> g"
  shows "nearest_double (of_int k * 2 powi g) = of_int k * 2 powi g"
proof -
  consider "0 < k" | "k = 0" | "k < 0" by linarith
  then show ?thesis
  proof cases
    case 1
    with assms show ?thesis by (intro nearest_double_exact) simp_all
  next
    case 2
    then show ?thesis by (simp add: nearest_double_def)
  next
    case 3
    with assms have "nearest_double (of_int (- k) * 2 powi g) = of_int (- k) * 2 powi g"
      by (intro nearest_double_exact) simp_all
    then show ?thesis using nearest_double_minus [of "of_int k * 2 powi g"] by simp
  qed
qed

lemma total_seconds_less_30: "(total_seconds td < 30) = (td < 30000000)"
  using total_seconds_less_iff [of 30 td] by simp

lemma total_seconds_less_2: "(total_seconds td < 2) = (td < 2000000)"
  using total_seconds_less_iff [of 2 td] by simp

lemma elapsed_mins_le_15:
  assumes "td \<le> 900000000"
  shows "nearest_double (total_seconds td / 60) \<le> 15"
proof -
  from assms have "(of_int td :: rat) \<le> of_int 900000000" by (simp only: of_int_le_iff)
  then have "(of_int td :: rat) / 1000000 \<le> of_int 900 * 2 powi 0" by simp
  then have "nearest_double (of_int td / 1000000) \<le> of_int 900 * 2 powi 0"
    by (intro nearest_double_le_anchor) simp_all
  then have "total_seconds td / 60 \<le> of_int 15 * 2 powi 0" by (simp add: total_seconds_def)
  then have "nearest_double (total_seconds td / 60) \<le> of_int 15 * 2 powi 0"
    by (intro nearest_double_le_anchor) simp_all
  then show ?thesis by simp
qed

lemma pnl_of_exact:
  assumes "\<bar>ask - 40\<bar> \<le> 2 ^ 49"
  shows "pnl_of ask = Inr (Finite (10 * of_int (ask - 40) / 40))"
proof -
  define k where "k = ask - 40"
  from assms have k: "\<bar>k\<bar> < 2 ^ 53" and k10: "\<bar>10 * k\<bar> < 2 ^ 53" by (simp_all add: k_def)
  have a: "nearest_double (of_int k) = of_int k"
    using nearest_double_exact_int [OF k, of 0] by simp
  from k have "\<bar>of_int k :: rat\<bar> < of_int (2 ^ 53)"
    by (simp only: of_int_less_iff flip: of_int_abs)
  also have "\<dots> < (2::rat) ^ 1024" by simp
  finally have ab: "\<bar>of_int k :: rat\<bar> < 2 ^ 1024" .
  have b: "nearest_double (10 * of_int k) = 10 * of_int k"
    using nearest_double_exact_int [OF k10, of 0] by simp
  from k10 have "\<bar>of_int (10 * k) :: rat\<bar> < of_int (2 ^ 53)"
    by (simp only: of_int_less_iff flip: of_int_abs)
  also have "\<dots> < (2::rat) ^ 1024" by simp
  finally have bb: "\<bar>10 * of_int k :: rat\<bar> < 2 ^ 1024" by simp
  have "nearest_double (of_int k * 2 powi (- 2)) = of_int k * 2 powi (- 2)"
    using k by (intro nearest_double_exact_int) simp_all
  then have c: "nearest_double (10 * of_int k / 40) = 10 * of_int k / 40" by simp
  show ?thesis
    unfolding pnl_of_def int_to_float_def float_mul_def float_div_def Let_def k_def [symmetric]
    using a ab b bb c by simp
qed

lemma ilog2_eqI:
  assumes "0 < a" "2 powi e \<le> a" "a < 2 powi (e + 1)"
  shows "ilog2 a = e"
proof -
  from ilog2_bounds [OF assms(1)] assms(2,3)
  have "(2::rat) powi ilog2 a < 2 powi (e + 1)" "(2::rat) powi e < 2 powi (ilog2 a + 1)"
    by simp_all
  then have "ilog2 a < e + 1" "e < ilog2 a + 1" by (simp_all only: two_powi_less_cancel)
  then show ?thesis by simp
qed

lemma round_half_even_eqI:
  assumes "\<bar>m - of_int k\<bar> < 1 / 2"
  shows "round_half_even m = k"
proof (cases "of_int k \<le> m")
  case True
  with assms have "m < of_int k + 1" by simp
  with True have "\<lfloor>m\<rfloor> = k" by (simp add: floor_eq_iff)
  with assms True show ?thesis by (simp add: round_half_even_def Let_def)
next
  case False
  with assms have "of_int (k - 1) \<le> m" "m < of_int (k - 1) + 1" by simp_all
  then have "\<lfloor>m\<rfloor> = k - 1" by (simp only: floor_eq_iff)
  with assms False show ?thesis by (simp add: round_half_even_def Let_def)
qed

lemma round_half_even_tie:
  assumes "m = of_int k + 1 / 2"
  shows "round_half_even m = (if even k then k else k + 1)"
proof -
  from assms have "\<lfloor>m\<rfloor> = k" by (simp add: floor_eq_iff)
  with assms show ?thesis by (simp add: round_half_even_def Let_def)
qed

lemma nearest_doubleI:
  assumes "0 < x" "2 powi e \<le> x" "x < 2 powi (e + 1)"
    and "round_half_even (x / 2 powi max (e - 52) (- 1074)) = k"
  shows "nearest_double x = of_int k * 2 powi max (e - 52) (- 1074)"
proof -
  from assms(1-3) have "ilog2 x = e" by (rule ilog2_eqI)
  then have "quantum_exp x = max (e - 52) (- 1074)" by (simp add: quantum_exp_def)
  with assms(1,4) show ?thesis by (simp add: nearest_double_pos)
qed

text \<open>Beyond the exact range the P&L value is a rounded one: at the price
  \<open>2 ^ 53 + 41\<close> the conversion of \<open>price - 40\<close> drops the last bit.\<close>

lemma pnl_of_rounded: "pnl_of 9007199254741033 = Inr (Finite 2251799813685248)"
proof -
  have t: "round_half_even (9007199254740993 / 2 powi max (53 - 52) (- 1074)) = 4503599627370496"
    using round_half_even_tie [of "9007199254740993 / 2" 4503599627370496] by simp
  have "nearest_double 9007199254740993 = of_int 4503599627370496 * 2 powi max (53 - 52) (- 1074)"
    by (rule nearest_doubleI [OF _ _ _ t]) simp_all
  then have a: "nearest_double 9007199254740993 = 9007199254740992" by simp
  have "nearest_double (of_int 5 * 2 powi 54) = of_int 5 * 2 powi 54"
    by (rule nearest_double_exact) simp_all
  then have b: "nearest_double 90071992547409920 = 90071992547409920" by simp
  have "nearest_double (of_int 1 * 2 powi 51) = of_int 1 * 2 powi 51"
    by (rule nearest_double_exact) simp_all
  then have c: "nearest_double 2251799813685248 = 2251799813685248" by simp
  show ?thesis
    by (simp add: pnl_of_def int_to_float_def float_mul_def float_div_def Let_def a b c)
qed

text \<open>And the elapsed minutes of a span that is one microsecond short of 300000000
  minutes are rounded up to them.\<close>

lemma elapsed_mins_rounded:
  "nearest_double (total_seconds 17999999999999999 / 60) = 300000000"
proof -
  have t: "round_half_even (17999999999999999 / 1000000 / 2 powi max (34 - 52) (- 1074))
      = 4718592000000000"
    by (rule round_half_even_eqI) simp
  have "nearest_double (17999999999999999 / 1000000)
      = of_int 4718592000000000 * 2 powi max (34 - 52) (- 1074)"
    by (rule nearest_doubleI [OF _ _ _ t]) simp_all
  then have a: "total_seconds 17999999999999999 = 18000000000"
    by (simp add: total_seconds_def)
  have "nearest_double (of_int 300000000 * 2 powi 0) = of_int 300000000 * 2 powi 0"
    by (rule nearest_double_exact) simp_all
  then show ?thesis by (simp add: a)
qed

section \<open>Facts about the signal tracker\<close>

lemmas run_eval = run_def roll_def init_frame_def OrderBook_def on_data_def check_events_def
  add_event_row_def add_milestone_row_def startswith_TARGET_def var_get_def
  best_ask_def best_bid_def dict_keys_def apply_snapshot_def msg_get_def
  dt_sub_def toordinal_def ymd2ord_def days_before_year_def days_before_month_def
  micros_of_day_def contract_start_of_def
  compute_def replace_def add_timedelta_def shift_date_def next_date_def
  days_in_month_def is_leap_def MINYEAR_def MAXYEAR_def ticker_of_def two_digits_def
  digit_char_def month_abbr_def upper_def upper_char_def evts_def sent_def feb21_def
  low_ask_def high_bid_def pnls_def durations_def then_poll_def then_roll_def open_frame_def
  triggered_frame_def Let_def total_seconds_less_30 total_seconds_less_2 pnl_of_exact

lemma dt_sub_add: "dt_sub a b + dt_sub b c = dt_sub a c"
  by (simp add: dt_sub_def algebra_simps)

text \<open>Within a contract of 15 minutes the float test of the no-entry cutoff decides as
  the exact comparison of the microseconds does, whatever the setting.\<close>

lemma no_entry_cutoff_iff:
  assumes "0 < n" and "td \<le> 900000000"
  shows "(of_int n \<le> nearest_double (total_seconds td / 60)) = (n * 60000000 \<le> td)"
proof (cases "n < 2 ^ 27")
  case True
  with assms(1) show ?thesis by (rule elapsed_mins_ge_iff)
next
  case False
  then have n: "134217728 \<le> n" by simp
  from assms(2) have "nearest_double (total_seconds td / 60) \<le> 15"
    by (rule elapsed_mins_le_15)
  moreover from n have "(15 :: rat) < of_int n" by linarith
  ultimately have a: "\<not> of_int n \<le> nearest_double (total_seconds td / 60)" by linarith
  from n assms(2) have b: "\<not> n * 60000000 \<le> td" by linarith
  from a b show ?thesis by simp
qed

text \<open>A whole number of seconds is its own float.\<close>

lemma total_seconds_whole:
  assumes "\<bar>k\<bar> < 2 ^ 53"
  shows "total_seconds (k * 1000000) = of_int k"
proof -
  have "nearest_double (of_int k * 2 powi 0) = of_int k * 2 powi 0"
    using assms by (rule nearest_double_exact_int) simp
  then show ?thesis by (simp add: total_seconds_def)
qed

lemma check_events_stopped: "stopped_out s \<Longrightarrow> check_events s now = Inr s"
  by (simp add: check_events_def)

lemma poll_stopped:
  "stopped_out s \<Longrightarrow>
   \<exists>s'. poll s ups = Inr s' \<and> stopped_out s' \<and> log_rows s' = log_rows s \<and>
     delivered s' = delivered s \<and> stop_loss_count s' = stop_loss_count s \<and>
     cycle_count s' = cycle_count s \<and> in_trigger s' = in_trigger s"
proof (induction ups arbitrary: s)
  case Nil
  then show ?case by simp
next
  case (Cons u ups)
  obtain p now where u: "u = (p, now)" by (cases u)
  let ?s1 = "s\<lparr>book := (case p of Snapshot msg \<Rightarrow> apply_snapshot (book s) msg
                             | Delta msg \<Rightarrow> apply_delta (book s) msg)\<rparr>"
  from Cons.prems have st: "stopped_out ?s1" by simp
  then have od: "on_data s p now = Inr ?s1"
    by (simp add: on_data_def check_events_stopped)
  from Cons.IH [OF st] obtain s' where "poll ?s1 ups = Inr s'" "stopped_out s'"
    "log_rows s' = log_rows ?s1" "delivered s' = delivered ?s1"
    "stop_loss_count s' = stop_loss_count ?s1" "cycle_count s' = cycle_count ?s1"
    "in_trigger s' = in_trigger ?s1"
    by blast
  with od u show ?case by simp
qed

lemma roll_resets:
  assumes "roll s now = Inr r"
  shows "\<not> stopped_out r \<and> \<not> in_trigger r \<and> trigger_time r = None \<and>
    cycle_count r = 0 \<and> stop_loss_count r = 0 \<and> cycle_log r = [] \<and> entry_ask r = None \<and>
    log_rows r = log_rows s \<and> delivered r = delivered s \<and>
    (\<exists>ex cs. compute now = Inr (ticker r, ex) \<and> contract_start_of ex = Inr cs \<and>
       expiry r = Some ex \<and> contract_start r = Some cs \<and> book r = OrderBook (ticker r))"
  using assms by (auto simp add: roll_def Let_def split: sum.splits prod.splits)

text \<open>The fields an event row leaves alone, and what it appends.\<close>

lemma add_event_row_T40:
  "add_event_row s T40 time ask d =
     Inr (s\<lparr>log_rows := log_rows s @
              [\<lparr>row_time = time, row_ask = Some ask, row_duration = d, row_evt = T40\<rparr>],
            delivered := (if on_event s
              then delivered s @ [\<lparr>ev_time = time, ev_price = Some ask, ev_label = T40,
                     ev_duration = d, ev_pnl_value = None\<rparr>]
              else delivered s)\<rparr>)"
  by (simp add: add_event_row_def Let_def startswith_TARGET_def)

lemma add_event_row_priced:
  assumes "startswith_TARGET lbl \<or> lbl = STOP_LOSS" and "\<bar>ask - 40\<bar> \<le> 2 ^ 49"
  shows "add_event_row s lbl time ask d =
     Inr (s\<lparr>log_rows := log_rows s @
              [\<lparr>row_time = time, row_ask = Some ask, row_duration = d, row_evt = lbl\<rparr>],
            delivered := (if on_event s
              then delivered s @ [\<lparr>ev_time = time, ev_price = Some ask, ev_label = lbl,
                     ev_duration = d,
                     ev_pnl_value = Some (Finite (10 * (of_int ask - 40) / 40))\<rparr>]
              else delivered s)\<rparr>)"
  using assms by (simp add: add_event_row_def Let_def pnl_of_exact)

lemma target_pnl_ok_add_event_row:
  assumes "list_all target_pnl_ok (delivered s)"
    and "add_event_row s lbl time ask duration = Inr s'"
  shows "list_all target_pnl_ok (delivered s')"
proof (cases "\<bar>ask - 40\<bar> \<le> 2 ^ 49")
  case True
  then have "pnl_of ask = Inr (Finite (10 * of_int (ask - 40) / 40))" by (rule pnl_of_exact)
  with assms show ?thesis
    by (cases lbl)
      (auto simp add: add_event_row_def Let_def target_pnl_ok_def startswith_TARGET_def
        split: if_splits)
next
  case False
  with assms show ?thesis
    by (cases lbl)
      (auto simp add: add_event_row_def Let_def target_pnl_ok_def startswith_TARGET_def
        split: if_splits sum.splits)
qed

lemma target_pnl_ok_add_milestone_row:
  "list_all target_pnl_ok (delivered s) \<Longrightarrow>
   list_all target_pnl_ok (delivered (add_milestone_row s now))"
  by (simp add: add_milestone_row_def Let_def target_pnl_ok_def)

lemma target_pnl_ok_check_events:
  assumes "list_all target_pnl_ok (delivered s)" and "check_events s now = Inr s'"
  shows "list_all target_pnl_ok (delivered s')"
proof -
  have ev: "\<And>s0 lbl time ask d s1. delivered s0 = delivered s \<Longrightarrow>
      add_event_row s0 lbl time ask d = Inr s1 \<Longrightarrow> list_all target_pnl_ok (delivered s1)"
    using assms(1) target_pnl_ok_add_event_row by metis
  from assms show ?thesis
    unfolding check_events_def Let_def
    by (auto split: if_splits option.splits sum.splits
        intro!: target_pnl_ok_add_milestone_row elim!: ev [rotated])
qed

lemma target_pnl_ok_poll:
  "list_all target_pnl_ok (delivered s) \<Longrightarrow> poll s ups = Inr s' \<Longrightarrow>
   list_all target_pnl_ok (delivered s')"
proof (induction ups arbitrary: s)
  case Nil
  then show ?case by simp
next
  case (Cons u ups)
  obtain p now where u: "u = (p, now)" by (cases u)
  let ?s1 = "s\<lparr>book := (case p of Snapshot msg \<Rightarrow> apply_snapshot (book s) msg
                             | Delta msg \<Rightarrow> apply_delta (book s) msg)\<rparr>"
  from Cons.prems(2) u obtain s2 where a: "check_events ?s1 now = Inr s2"
    and b: "poll s2 ups = Inr s'"
    by (auto simp add: on_data_def split: sum.splits)
  from Cons.prems(1) have "list_all target_pnl_ok (delivered ?s1)" by simp
  from this a have "list_all target_pnl_ok (delivered s2)" by (rule target_pnl_ok_check_events)
  from this b show ?case by (rule Cons.IH)
qed

text \<open>An ask beyond the range of the doubles: the conversion of \<^verbatim>\<open>ask - 40\<close> raises, and
  with it the update that would have delivered the STOP LOSS event.\<close>

lemma pnl_of_overflow: "pnl_of (- (2 ^ 1024)) = Inl OverflowError"
proof -
  let ?x = "(2 :: rat) ^ 1024 + 40"
  have m: "\<bar>?x / 2 powi max (1024 - 52) (- 1074) - of_int (2 ^ 52)\<bar> < 1 / 2"
    by (simp add: power_int_def)
  have t: "round_half_even (?x / 2 powi max (1024 - 52) (- 1074)) = 2 ^ 52"
    using m by (rule round_half_even_eqI)
  have "nearest_double ?x = of_int (2 ^ 52) * 2 powi max (1024 - 52) (- 1074)"
    by (rule nearest_doubleI [OF _ _ _ t]) (simp_all add: power_int_def)
  then have a: "nearest_double ?x = 2 ^ 1024" by (simp add: power_int_def)
  have "nearest_double (of_int (- (2 ^ 1024) - 40)) = nearest_double (- ?x)" by simp
  also have "\<dots> = - (2 ^ 1024)" by (simp only: nearest_double_minus a)
  finally have b: "nearest_double (of_int (- (2 ^ 1024) - 40)) = - (2 ^ 1024)" .
  show ?thesis
    unfolding pnl_of_def int_to_float_def Let_def b by simp
qed

lemma stop_loss_overflow:
  "check_events (triggered_frame [] [(100 + 2 ^ 1024, 10)]) (feb21 12 1 1) = Inl OverflowError"
proof -
  have "best_ask (book (triggered_frame [] [(100 + 2 ^ 1024, 10)])) ''yes'' = Some (- (2 ^ 1024))"
    by (simp add: triggered_frame_def open_frame_def init_frame_def best_ask_def dict_keys_def)
  then show ?thesis
    by (simp add: check_events_def triggered_frame_def open_frame_def init_frame_def
        add_event_row_def startswith_TARGET_def var_get_def Let_def
        pnl_of_overflow [simplified])
qed

section \<open>Order book claims\<close>

text \<open>
  C1, as amended. The claim that a delta whose side is neither "yes" nor "no" leaves both
  maps unchanged fails: \<^verbatim>\<open>apply_delta\<close> selects the yes map when the side is "yes" and the
  no map in every other case. What holds: a delta whose side is not "yes" never changes
  the yes map and is applied to the no map exactly as a delta with side "no" is.
\<close>

theorem apply_delta_other_side_is_no:
  "msg_side msg \<noteq> ''yes'' \<Longrightarrow>
   yes (apply_delta b msg) = yes b \<and>
   apply_delta b msg = apply_delta b (msg\<lparr>msg_side := ''no''\<rparr>)"
  by (simp add: apply_delta_def)

theorem apply_delta_other_side_is_no_witness:
  "''maybe'' \<noteq> ''yes'' \<and>
   yes (apply_delta (OrderBook ''T'') \<lparr>msg_side = ''maybe'', msg_price = 50, msg_delta = 5\<rparr>)
     = yes (OrderBook ''T'') \<and>
   apply_delta (OrderBook ''T'') \<lparr>msg_side = ''maybe'', msg_price = 50, msg_delta = 5\<rparr>
     = apply_delta (OrderBook ''T'') \<lparr>msg_side = ''no'', msg_price = 50, msg_delta = 5\<rparr>"
  using apply_delta_other_side_is_no
    [of "\<lparr>msg_side = ''maybe'', msg_price = 50, msg_delta = 5\<rparr>" "OrderBook ''T''"]
  by (simp add: apply_delta_def OrderBook_def)

text \<open>
  C1, the counterexample: on an empty book a delta of +5 at price 50 with the unknown side
  "maybe" puts the level 50 into the no map.
\<close>

theorem apply_delta_unknown_side_counterexample:
  "\<not> known_side ''maybe'' \<and>
   no (apply_delta (OrderBook ''T'') \<lparr>msg_side = ''maybe'', msg_price = 50, msg_delta = 5\<rparr>)
     = [(50, 5)] \<and>
   no (OrderBook ''T'') = []"
  by (simp add: known_side_def apply_delta_def OrderBook_def delta_on_def)

text \<open>
  C2. Starting from a snapshot whose quantities are all positive, any finite sequence of
  deltas with known sides leaves every level of both maps with a positive quantity. Each
  delta computes the new quantity as the current one (the quantity the map holds at the
  price, 0 when the price is absent) plus the signed delta, removes the level when the
  result is at most 0 and stores the result otherwise; the other prices of that map keep
  their quantities.
\<close>

theorem apply_delta_levels_positive:
  assumes "positive_levels (msg_get (snap_yes snap))"
    and "positive_levels (msg_get (snap_no snap))"
    and "\<forall>m \<in> set ms. known_side (msg_side m)"
    and "known_side (msg_side m)"
  shows "positive_levels (yes (foldl apply_delta (apply_snapshot b snap) ms)) \<and>
         positive_levels (no (foldl apply_delta (apply_snapshot b snap) ms)) \<and>
         map_of (own_map (apply_delta b' m) (msg_side m)) =
           (let cur = (case map_of (own_map b' (msg_side m)) (msg_price m) of
                         None \<Rightarrow> 0 | Some qty \<Rightarrow> qty);
                new_qty = cur + msg_delta m
            in if new_qty \<le> 0 then (map_of (own_map b' (msg_side m)))(msg_price m := None)
               else (map_of (own_map b' (msg_side m)))(msg_price m \<mapsto> new_qty))"
proof -
  have "positive_levels (yes (apply_snapshot b snap))"
    and "positive_levels (no (apply_snapshot b snap))"
    using assms(1,2)
    by (simp_all add: apply_snapshot_def positive_dict_comprehension positive_levels_Nil)
  then have inv: "positive_levels (yes (foldl apply_delta (apply_snapshot b snap) ms)) \<and>
      positive_levels (no (foldl apply_delta (apply_snapshot b snap) ms))"
    by (rule positive_foldl_apply_delta)
  have step: "map_of (own_map (apply_delta b' m) (msg_side m)) =
           (let cur = (case map_of (own_map b' (msg_side m)) (msg_price m) of
                         None \<Rightarrow> 0 | Some qty \<Rightarrow> qty);
                new_qty = cur + msg_delta m
            in if new_qty \<le> 0 then (map_of (own_map b' (msg_side m)))(msg_price m := None)
               else (map_of (own_map b' (msg_side m)))(msg_price m \<mapsto> new_qty))"
    by (simp add: own_map_def apply_delta_def map_of_delta_on dict_get_map_of Let_def)
  from inv step show ?thesis by blast
qed

theorem apply_delta_levels_positive_witness:
  "positive_levels (msg_get (snap_yes \<lparr>snap_yes = Some [(30, 100)], snap_no = Some [(65, 50)]\<rparr>)) \<and>
   positive_levels (msg_get (snap_no \<lparr>snap_yes = Some [(30, 100)], snap_no = Some [(65, 50)]\<rparr>)) \<and>
   known_side (msg_side \<lparr>msg_side = ''yes'', msg_price = 30, msg_delta = - 100\<rparr>) \<and>
   known_side (msg_side \<lparr>msg_side = ''no'', msg_price = 65, msg_delta = - 20\<rparr>) \<and>
   yes (foldl apply_delta
         (apply_snapshot (OrderBook ''T'')
            \<lparr>snap_yes = Some [(30, 100)], snap_no = Some [(65, 50)]\<rparr>)
         [\<lparr>msg_side = ''yes'', msg_price = 30, msg_delta = - 100\<rparr>,
          \<lparr>msg_side = ''no'', msg_price = 65, msg_delta = - 20\<rparr>]) = [] \<and>
   no (foldl apply_delta
         (apply_snapshot (OrderBook ''T'')
            \<lparr>snap_yes = Some [(30, 100)], snap_no = Some [(65, 50)]\<rparr>)
         [\<lparr>msg_side = ''yes'', msg_price = 30, msg_delta = - 100\<rparr>,
          \<lparr>msg_side = ''no'', msg_price = 65, msg_delta = - 20\<rparr>]) = [(65, 30)] \<and>
   positive_levels [(65, 30)] \<and>
   map_of (own_map
             (apply_delta
                (apply_snapshot (OrderBook ''T'')
                   \<lparr>snap_yes = Some [(30, 100)], snap_no = Some [(65, 50)]\<rparr>)
                \<lparr>msg_side = ''no'', msg_price = 65, msg_delta = - 20\<rparr>) ''no'') 65 = Some 30 \<and>
   map_of (own_map
             (apply_delta
                (apply_snapshot (OrderBook ''T'')
                   \<lparr>snap_yes = Some [(30, 100)], snap_no = Some [(65, 50)]\<rparr>)
                \<lparr>msg_side = ''yes'', msg_price = 30, msg_delta = - 100\<rparr>) ''yes'') 30 = None"
  using apply_delta_levels_positive
    [of "\<lparr>snap_yes = Some [(30, 100)], snap_no = Some [(65, 50)]\<rparr>"
        "[\<lparr>msg_side = ''yes'', msg_price = 30, msg_delta = - 100\<rparr>,
          \<lparr>msg_side = ''no'', msg_price = 65, msg_delta = - 20\<rparr>]"
        "\<lparr>msg_side = ''no'', msg_price = 65, msg_delta = - 20\<rparr>"
        "OrderBook ''T''"
        "apply_snapshot (OrderBook ''T'')
           \<lparr>snap_yes = Some [(30, 100)], snap_no = Some [(65, 50)]\<rparr>"]
  by (simp add: positive_levels_def msg_get_def known_side_def apply_snapshot_def
      apply_delta_def delta_on_def OrderBook_def own_map_def)

text \<open>
  C3. In every book state and for every side name, \<^verbatim>\<open>best_ask\<close> is 100 minus the largest
  key of the opposite side's map when that map is non-empty and none when it is empty, and
  \<^verbatim>\<open>best_bid\<close> is the largest key of the side's own map, none when that map is empty.
\<close>

theorem best_ask_best_bid_max_key:
  "(opposite_map b s \<noteq> [] \<longrightarrow>
      best_ask b s = Some (100 - Max (set (dict_keys (opposite_map b s))))) \<and>
   (opposite_map b s = [] \<longrightarrow> best_ask b s = None) \<and>
   (own_map b s \<noteq> [] \<longrightarrow> best_bid b s = Some (Max (set (dict_keys (own_map b s))))) \<and>
   (own_map b s = [] \<longrightarrow> best_bid b s = None)"
  by (simp add: best_ask_def best_bid_def opposite_map_def own_map_def dict_keys_def
      py_max_eq Let_def)

theorem best_ask_best_bid_max_key_witness:
  "opposite_map \<lparr>market_ticker = ''T'', yes = [(30, 100), (28, 7)], no = [(60, 1), (65, 50)]\<rparr> ''yes''
     \<noteq> [] \<and>
   own_map \<lparr>market_ticker = ''T'', yes = [(30, 100), (28, 7)], no = [(60, 1), (65, 50)]\<rparr> ''yes''
     \<noteq> [] \<and>
   best_ask \<lparr>market_ticker = ''T'', yes = [(30, 100), (28, 7)], no = [(60, 1), (65, 50)]\<rparr> ''yes''
     = Some 35 \<and>
   best_bid \<lparr>market_ticker = ''T'', yes = [(30, 100), (28, 7)], no = [(60, 1), (65, 50)]\<rparr> ''yes''
     = Some 30 \<and>
   opposite_map (OrderBook ''T'') ''no'' = [] \<and> best_ask (OrderBook ''T'') ''no'' = None \<and>
   own_map (OrderBook ''T'') ''no'' = [] \<and> best_bid (OrderBook ''T'') ''no'' = None"
  using best_ask_best_bid_max_key
    [of "\<lparr>market_ticker = ''T'', yes = [(30, 100), (28, 7)], no = [(60, 1), (65, 50)]\<rparr>" "''yes''"]
    best_ask_best_bid_max_key [of "OrderBook ''T''" "''no''"]
  by (simp add: opposite_map_def own_map_def dict_keys_def OrderBook_def)

text \<open>
  C10. \<^verbatim>\<open>apply_snapshot\<close> stores the levels of the message as they are, a later pair
  of the same price replacing an earlier one, and filters no quantity: there is a snapshot
  with a level of quantity 0 that is in the yes map with quantity 0 afterwards, and one with
  a negative quantity in the no map, so the maps after a snapshot need not have positive
  quantities only.
\<close>

theorem apply_snapshot_keeps_nonpositive_quantity:
  "map_of (yes (apply_snapshot b msg)) = map_of (rev (msg_get (snap_yes msg))) \<and>
   map_of (no (apply_snapshot b msg)) = map_of (rev (msg_get (snap_no msg))) \<and>
   (\<exists>m p q. (p, q) \<in> set (msg_get (snap_yes m)) \<and> q = 0 \<and>
      map_of (yes (apply_snapshot b m)) p = Some q \<and>
      \<not> positive_levels (yes (apply_snapshot b m))) \<and>
   (\<exists>m p q. (p, q) \<in> set (msg_get (snap_no m)) \<and> q < 0 \<and>
      map_of (no (apply_snapshot b m)) p = Some q \<and>
      \<not> positive_levels (no (apply_snapshot b m)))"
proof -
  have a: "map_of (yes (apply_snapshot b msg)) = map_of (rev (msg_get (snap_yes msg)))"
    and a': "map_of (no (apply_snapshot b msg)) = map_of (rev (msg_get (snap_no msg)))"
    by (simp_all add: apply_snapshot_def map_of_dict_comprehension)
  let ?m = "\<lparr>snap_yes = Some [(30, 0)], snap_no = Some [(65, - 5)]\<rparr>"
  have "(30, 0) \<in> set (msg_get (snap_yes ?m)) \<and> (0::int) = 0 \<and>
      map_of (yes (apply_snapshot b ?m)) 30 = Some 0 \<and>
      \<not> positive_levels (yes (apply_snapshot b ?m))"
    by (simp add: msg_get_def apply_snapshot_def positive_levels_def)
  then have c: "\<exists>m p q. (p, q) \<in> set (msg_get (snap_yes m)) \<and> q = 0 \<and>
      map_of (yes (apply_snapshot b m)) p = Some q \<and>
      \<not> positive_levels (yes (apply_snapshot b m))"
    by blast
  have "(65, - 5) \<in> set (msg_get (snap_no ?m)) \<and> (- 5::int) < 0 \<and>
      map_of (no (apply_snapshot b ?m)) 65 = Some (- 5) \<and>
      \<not> positive_levels (no (apply_snapshot b ?m))"
    by (simp add: msg_get_def apply_snapshot_def positive_levels_def)
  then have d: "\<exists>m p q. (p, q) \<in> set (msg_get (snap_no m)) \<and> q < 0 \<and>
      map_of (no (apply_snapshot b m)) p = Some q \<and>
      \<not> positive_levels (no (apply_snapshot b m))"
    by blast
  from a a' c d show ?thesis by blast
qed

section \<open>Scheduler claims\<close>

text \<open>
  C5, as amended. For every valid wall-clock time \<open>now\<close> other than the last quarter of
  an hour of 31 December 9999, \<^verbatim>\<open>_compute\<close> returns an expiry that is strictly after
  \<open>now\<close>, at most 15 minutes after it, at a minute that is the next multiple of 15
  taken modulo 60 (so a multiple of 15, the hour carrying when the multiple reaches 60),
  with seconds and microseconds zero. At 12:07:00 the expiry is 12:15:00 of the same day
  and the start, the expiry minus 15 minutes, is 12:00:00.
\<close>

theorem compute_expiry_next_boundary:
  assumes "valid_datetime now" and "\<not> end_of_time now"
  shows "\<exists>tk ex. compute now = Inr (tk, ex) \<and>
      dt_gt ex now \<and> 0 < dt_sub ex now \<and> dt_sub ex now \<le> 15 * 60000000 \<and>
      minute ex = ((minute now div 15 + 1) * 15) mod 60 \<and> minute ex mod 15 = 0 \<and>
      second ex = 0 \<and> microsecond ex = 0 \<and>
      (hour now = 12 \<and> minute now = 7 \<longrightarrow>
         ex = \<lparr>year = year now, month = month now, day = day now, hour = 12,
                minute = 15, second = 0, microsecond = 0\<rparr> \<and>
         contract_start_of ex =
           Inr \<lparr>year = year now, month = month now, day = day now, hour = 12,
                  minute = 0, second = 0, microsecond = 0\<rparr>)"
proof -
  from compute_ok [OF assms] obtain ex where
    c: "compute now = Inr (ticker_of ex, ex)" and ok: "expiry_ok now ex"
    by blast
  have sc: "hour now = 12 \<and> minute now = 7 \<longrightarrow>
         ex = \<lparr>year = year now, month = month now, day = day now, hour = 12,
                minute = 15, second = 0, microsecond = 0\<rparr> \<and>
         contract_start_of ex =
           Inr \<lparr>year = year now, month = month now, day = day now, hour = 12,
                  minute = 0, second = 0, microsecond = 0\<rparr>"
  proof
    assume a: "hour now = 12 \<and> minute now = 7"
    then have h: "hour now = 12" and m: "minute now = 7" by simp_all
    from scenario_12_07(1) [OF assms(1) h m] c
    have e: "ex = \<lparr>year = year now, month = month now, day = day now, hour = 12,
                minute = 15, second = 0, microsecond = 0\<rparr>"
      by simp
    with scenario_12_07(2) [OF assms(1) h m]
    show "ex = \<lparr>year = year now, month = month now, day = day now, hour = 12,
                minute = 15, second = 0, microsecond = 0\<rparr> \<and>
         contract_start_of ex =
           Inr \<lparr>year = year now, month = month now, day = day now, hour = 12,
                  minute = 0, second = 0, microsecond = 0\<rparr>"
      by simp
  qed
  from ok have "dt_gt ex now \<and> 0 < dt_sub ex now \<and> dt_sub ex now \<le> 15 * 60000000 \<and>
      minute ex = ((minute now div 15 + 1) * 15) mod 60 \<and> minute ex mod 15 = 0 \<and>
      second ex = 0 \<and> microsecond ex = 0"
    unfolding expiry_ok_def by blast
  with c sc show ?thesis
    by (intro exI [of _ "ticker_of ex"] exI [of _ ex]) blast
qed

theorem compute_expiry_next_boundary_witness:
  "valid_datetime \<lparr>year = 2026, month = 2, day = 21, hour = 12, minute = 7, second = 0, microsecond = 0\<rparr> \<and>
   \<not> end_of_time \<lparr>year = 2026, month = 2, day = 21, hour = 12, minute = 7, second = 0, microsecond = 0\<rparr> \<and>
   compute \<lparr>year = 2026, month = 2, day = 21, hour = 12, minute = 7, second = 0, microsecond = 0\<rparr> = Inr (''KXBTC15M-26FEB211215-15'', \<lparr>year = 2026, month = 2, day = 21, hour = 12, minute = 15, second = 0, microsecond = 0\<rparr>) \<and>
   dt_gt \<lparr>year = 2026, month = 2, day = 21, hour = 12, minute = 15, second = 0, microsecond = 0\<rparr> \<lparr>year = 2026, month = 2, day = 21, hour = 12, minute = 7, second = 0, microsecond = 0\<rparr> \<and>
   dt_sub \<lparr>year = 2026, month = 2, day = 21, hour = 12, minute = 15, second = 0, microsecond = 0\<rparr> \<lparr>year = 2026, month = 2, day = 21, hour = 12, minute = 7, second = 0, microsecond = 0\<rparr> = 8 * 60000000 \<and>
   contract_start_of \<lparr>year = 2026, month = 2, day = 21, hour = 12, minute = 15, second = 0, microsecond = 0\<rparr> = Inr \<lparr>year = 2026, month = 2, day = 21, hour = 12, minute = 0, second = 0, microsecond = 0\<rparr>"
proof -
  have v: "valid_datetime \<lparr>year = 2026, month = 2, day = 21, hour = 12, minute = 7, second = 0, microsecond = 0\<rparr>"
    by (simp add: valid_datetime_def days_in_month_def is_leap_def MINYEAR_def MAXYEAR_def)
  have n: "\<not> end_of_time \<lparr>year = 2026, month = 2, day = 21, hour = 12, minute = 7, second = 0, microsecond = 0\<rparr>"
    by (simp add: end_of_time_def)
  have c: "compute \<lparr>year = 2026, month = 2, day = 21, hour = 12, minute = 7, second = 0, microsecond = 0\<rparr> = Inr (''KXBTC15M-26FEB211215-15'', \<lparr>year = 2026, month = 2, day = 21, hour = 12, minute = 15, second = 0, microsecond = 0\<rparr>)"
    by (simp add: compute_def replace_def add_timedelta_def micros_of_day_def shift_date_def next_date_def
      days_in_month_def is_leap_def MINYEAR_def MAXYEAR_def ticker_of_def two_digits_def digit_char_def
      month_abbr_def upper_def upper_char_def valid_datetime_def end_of_time_def)
  have g: "dt_gt \<lparr>year = 2026, month = 2, day = 21, hour = 12, minute = 15, second = 0, microsecond = 0\<rparr> \<lparr>year = 2026, month = 2, day = 21, hour = 12, minute = 7, second = 0, microsecond = 0\<rparr>"
    by (simp add: dt_gt_def getstate_def)
  have d: "dt_sub \<lparr>year = 2026, month = 2, day = 21, hour = 12, minute = 15, second = 0, microsecond = 0\<rparr> \<lparr>year = 2026, month = 2, day = 21, hour = 12, minute = 7, second = 0, microsecond = 0\<rparr> = 8 * 60000000"
    by (simp add: dt_sub_def toordinal_def micros_of_day_def)
  from compute_expiry_next_boundary [OF v n] c
  have "contract_start_of \<lparr>year = 2026, month = 2, day = 21, hour = 12, minute = 15, second = 0, microsecond = 0\<rparr> = Inr \<lparr>year = 2026, month = 2, day = 21, hour = 12, minute = 0, second = 0, microsecond = 0\<rparr>"
    by simp
  with v n c g d show ?thesis by blast
qed

text \<open>
  C5, the counterexample: 23:50:00 on 31 December 9999 is a valid datetime, and rounding
  it up to the next hour is beyond the last year of \<^verbatim>\<open>datetime\<close>, so \<^verbatim>\<open>_compute\<close>
  raises \<^verbatim>\<open>OverflowError\<close> and returns no expiry.
\<close>

theorem compute_end_of_time_counterexample:
  "valid_datetime \<lparr>year = 9999, month = 12, day = 31, hour = 23, minute = 50, second = 0, microsecond = 0\<rparr> \<and>
   compute \<lparr>year = 9999, month = 12, day = 31, hour = 23, minute = 50, second = 0, microsecond = 0\<rparr> = Inl OverflowError"
  by (simp add: compute_def replace_def add_timedelta_def micros_of_day_def shift_date_def next_date_def
      days_in_month_def is_leap_def MINYEAR_def MAXYEAR_def ticker_of_def two_digits_def digit_char_def
      month_abbr_def upper_def upper_char_def valid_datetime_def end_of_time_def)

text \<open>
  C9. Every identifier that \<^verbatim>\<open>_compute\<close> returns with an expiry is the prefix
  \<^verbatim>\<open>KXBTC15M-\<close>, the two-digit year of the expiry, the upper-case three-letter
  month abbreviation, the two-digit day, the two-digit hour (0 to 23), the two-digit
  minute, a hyphen and the two-digit minute again: 23 characters, each field at its fixed
  position and reading back as the field of the expiry.
\<close>

theorem compute_ticker_template:
  assumes "valid_datetime now" and "compute now = Inr (tk, ex)"
  shows "tk = ''KXBTC15M-'' @ two_digits (year ex mod 100) @ MON ! nat (month ex - 1)
           @ two_digits (day ex) @ two_digits (hour ex) @ two_digits (minute ex)
           @ ''-'' @ two_digits (minute ex) \<and>
         length tk = 23 \<and>
         take 9 tk = ''KXBTC15M-'' \<and>
         read_two_digits (take 2 (drop 9 tk)) = Some (year ex mod 100) \<and>
         take 3 (drop 11 tk) = MON ! nat (month ex - 1) \<and>
         read_two_digits (take 2 (drop 14 tk)) = Some (day ex) \<and>
         read_two_digits (take 2 (drop 16 tk)) = Some (hour ex) \<and>
         read_two_digits (take 2 (drop 18 tk)) = Some (minute ex) \<and>
         take 1 (drop 20 tk) = ''-'' \<and>
         read_two_digits (drop 21 tk) = Some (minute ex) \<and>
         0 \<le> hour ex \<and> hour ex \<le> 23 \<and> 1 \<le> month ex \<and> month ex \<le> 12"
proof -
  have t: "tk = ticker_of ex" using assms(2) by (rule compute_Inr_ticker)
  have ne: "\<not> end_of_time now"
  proof
    assume "end_of_time now"
    with assms(1) have "compute now = Inl OverflowError" by (rule compute_overflow)
    with assms(2) show False by simp
  qed
  from compute_ok [OF assms(1) ne] assms(2) have "expiry_ok now ex" by auto
  then have v: "valid_datetime ex" by (simp add: expiry_ok_def)
  then have m: "1 \<le> month ex" "month ex \<le> 12" and h: "0 \<le> hour ex" "hour ex \<le> 23"
    by (simp_all add: valid_datetime_def)
  from upper_month_abbr [OF m] have "upper (month_abbr (month ex)) = MON ! nat (month ex - 1)"
    by simp
  then have tpl: "ticker_of ex = ''KXBTC15M-'' @ two_digits (year ex mod 100)
           @ MON ! nat (month ex - 1)
           @ two_digits (day ex) @ two_digits (hour ex) @ two_digits (minute ex)
           @ ''-'' @ two_digits (minute ex)"
    by (simp add: ticker_of_def Let_def)
  note f = ticker_of_fields [OF v]
  show ?thesis
    unfolding t by (intro conjI) (rule tpl f m h)+
qed

theorem compute_ticker_template_witness:
  "valid_datetime \<lparr>year = 2026, month = 2, day = 21, hour = 12, minute = 7, second = 0, microsecond = 0\<rparr> \<and>
   compute \<lparr>year = 2026, month = 2, day = 21, hour = 12, minute = 7, second = 0, microsecond = 0\<rparr> = Inr (''KXBTC15M-26FEB211215-15'', \<lparr>year = 2026, month = 2, day = 21, hour = 12, minute = 15, second = 0, microsecond = 0\<rparr>) \<and>
   ''KXBTC15M-26FEB211215-15'' = ''KXBTC15M-'' @ ''26'' @ ''FEB'' @ ''21'' @ ''12'' @ ''15'' @ ''-'' @ ''15'' \<and>
   length ''KXBTC15M-26FEB211215-15'' = 23 \<and>
   read_two_digits (take 2 (drop 9 ''KXBTC15M-26FEB211215-15'')) = Some 26 \<and>
   take 3 (drop 11 ''KXBTC15M-26FEB211215-15'') = MON ! nat (2 - 1) \<and>
   read_two_digits (take 2 (drop 14 ''KXBTC15M-26FEB211215-15'')) = Some 21 \<and>
   read_two_digits (take 2 (drop 16 ''KXBTC15M-26FEB211215-15'')) = Some 12 \<and>
   read_two_digits (take 2 (drop 18 ''KXBTC15M-26FEB211215-15'')) = Some 15 \<and>
   read_two_digits (drop 21 ''KXBTC15M-26FEB211215-15'') = Some 15"
proof -
  have v: "valid_datetime \<lparr>year = 2026, month = 2, day = 21, hour = 12, minute = 7, second = 0, microsecond = 0\<rparr>"
    by (simp add: valid_datetime_def days_in_month_def is_leap_def MINYEAR_def MAXYEAR_def)
  have c: "compute \<lparr>year = 2026, month = 2, day = 21, hour = 12, minute = 7, second = 0, microsecond = 0\<rparr> = Inr (''KXBTC15M-26FEB211215-15'', \<lparr>year = 2026, month = 2, day = 21, hour = 12, minute = 15, second = 0, microsecond = 0\<rparr>)"
    by (simp add: compute_def replace_def add_timedelta_def micros_of_day_def shift_date_def next_date_def
      days_in_month_def is_leap_def MINYEAR_def MAXYEAR_def ticker_of_def two_digits_def digit_char_def
      month_abbr_def upper_def upper_char_def valid_datetime_def end_of_time_def)
  from compute_ticker_template [OF v c] v c show ?thesis
    by (simp add: MON_def two_digits_def digit_char_def read_two_digits_def digit_value_def)
qed

section \<open>Signal tracker claims\<close>

text \<open>
  C6, as amended. While the tracker is idle and not stopped out, in a contract whose
  start is 15 minutes before its expiry (as every roll sets it), a book update emits an
  ENTRY (a T40 row and, with a callback registered, a T40 event without P&L value, with
  the clock reading and the ask, which are recorded as trigger time and entry ask) exactly
  when the ask is at most 40, at least 30 seconds remain to the expiry, and the
  no-entry-after setting is 0 or less or the time since the contract start is less than
  that many minutes; otherwise the frame is unchanged. The times are compared as Python
  compares them, in floats; in such a contract that is the comparison of the microseconds.
\<close>

theorem entry_when_idle:
  assumes "\<not> stopped_out s" and "\<not> in_trigger s"
    and "expiry s = Some e" and "contract_start s = Some cs"
    and "dt_sub e cs = 15 * 60000000"
  shows "\<exists>s'. check_events s now = Inr s' \<and>
     (case best_ask (book s) (side s) of
        None \<Rightarrow> s' = s
      | Some ask \<Rightarrow>
         if ask \<le> 40 \<and> 30 * 1000000 \<le> dt_sub e now \<and>
            (var_get (no_entry_after_var s) \<le> 0 \<or>
             dt_sub now cs < var_get (no_entry_after_var s) * 60000000)
         then s' = s\<lparr>in_trigger := True, trigger_time := Some now, entry_ask := Some ask,
                log_rows := log_rows s @
                  [\<lparr>row_time = now, row_ask = Some ask, row_duration = None, row_evt = T40\<rparr>],
                delivered :=
                  (if on_event s
                   then delivered s @
                     [\<lparr>ev_time = now, ev_price = Some ask, ev_label = T40,
                       ev_duration = None, ev_pnl_value = None\<rparr>]
                   else delivered s)\<rparr>
         else s' = s)"
proof (cases "best_ask (book s) (side s)")
  case None
  with assms(1) show ?thesis by (simp add: check_events_def)
next
  case (Some ask)
  let ?n = "var_get (no_entry_after_var s)"
  let ?late = "of_int ?n \<le> nearest_double (total_seconds (dt_sub now cs) / 60)"
  have cut: "?late = (?n * 60000000 \<le> dt_sub now cs)"
    if "0 < ?n" and "30 * 1000000 \<le> dt_sub e now"
  proof -
    from dt_sub_add [of e now cs] assms(5) that(2) have "dt_sub now cs \<le> 900000000"
      by simp
    with that(1) show ?thesis by (rule no_entry_cutoff_iff)
  qed
  show ?thesis
  proof (cases "ask \<le> 40 \<and> 30 * 1000000 \<le> dt_sub e now \<and>
            (?n \<le> 0 \<or> dt_sub now cs < ?n * 60000000)")
    case True
    then have a: "ask \<le> 40" and b: "\<not> total_seconds (dt_sub e now) < 30"
      by (simp_all add: total_seconds_less_30)
    from True cut have c: "\<not> (0 < ?n \<and> ?late)" by auto
    have "check_events s now =
        add_event_row (s\<lparr>in_trigger := True, trigger_time := Some now,
          entry_ask := Some ask\<rparr>) T40 now ask None"
      using assms(1-4) Some a b c by (auto simp add: check_events_def Let_def)
    then show ?thesis using Some True by (simp add: add_event_row_T40)
  next
    case False
    have "40 < ask \<or> total_seconds (dt_sub e now) < 30 \<or> (0 < ?n \<and> ?late)"
    proof (cases "30 * 1000000 \<le> dt_sub e now")
      case True
      with False cut show ?thesis by auto
    next
      case False
      then show ?thesis by (simp add: total_seconds_less_30)
    qed
    then have "check_events s now = Inr s"
      using assms(1-4) Some by (auto simp add: check_events_def Let_def)
    with Some False show ?thesis by auto
  qed
qed

theorem entry_when_idle_witness:
  "\<not> stopped_out (open_frame [(30, 10)] [(60, 10)]) \<and>
   \<not> in_trigger (open_frame [(30, 10)] [(60, 10)]) \<and>
   expiry (open_frame [(30, 10)] [(60, 10)]) = Some (feb21 12 15 0) \<and>
   contract_start (open_frame [(30, 10)] [(60, 10)]) = Some (feb21 12 0 0) \<and>
   dt_sub (feb21 12 15 0) (feb21 12 0 0) = 15 * 60000000 \<and>
   best_ask (book (open_frame [(30, 10)] [(60, 10)])) ''yes'' = Some 40 \<and>
   evts (check_events (open_frame [(30, 10)] [(60, 10)]) (feb21 12 1 0)) = [T40] \<and>
   sent (check_events (open_frame [(30, 10)] [(60, 10)]) (feb21 12 1 0)) = [T40] \<and>
   pnls (check_events (open_frame [(30, 10)] [(60, 10)]) (feb21 12 1 0)) = [None] \<and>
   evts (check_events (open_frame [(30, 10)] [(60, 10)]) (feb21 12 14 31)) = [] \<and>
   evts (check_events (open_frame [(30, 10)] [(59, 10)]) (feb21 12 1 0)) = [] \<and>
   evts (check_events ((open_frame [(30, 10)] [(60, 10)])\<lparr>no_entry_after_var := Some 5\<rparr>)
     (feb21 12 4 59)) = [T40] \<and>
   evts (check_events ((open_frame [(30, 10)] [(60, 10)])\<lparr>no_entry_after_var := Some 5\<rparr>)
     (feb21 12 5 0)) = []"
  using entry_when_idle [of "open_frame [(30, 10)] [(60, 10)]" "feb21 12 15 0" "feb21 12 0 0"
      "feb21 12 1 0"]
  by (simp add: run_eval elapsed_mins_ge_iff [of 5, simplified])

text \<open>
  C6, the counterexamples. The frame opened at 12:00:01 tracks the contract expiring at
  12:15:00; a book with ask 40 that arrives at 12:14:30, when the time remaining is 30
  seconds and so does not exceed 30 seconds, emits an ENTRY. And with the no-entry-after
  setting at -1, which is not 0 and below every elapsed time, a book with ask 40 one
  minute into the contract emits an ENTRY.
\<close>

theorem entry_at_30_seconds_counterexample:
  "compute (feb21 12 0 1) = Inr (''KXBTC15M-26FEB211215-15'', feb21 12 15 0) \<and>
   dt_sub (feb21 12 15 0) (feb21 12 14 30) = 30 * 1000000 \<and>
   evts (run ''yes'' True (feb21 12 0 1) [(low_ask, feb21 12 14 30)]) = [T40] \<and>
   var_get (no_entry_after_var
     ((open_frame [(30, 10)] [(60, 10)])\<lparr>no_entry_after_var := Some (- 1)\<rparr>)) = - 1 \<and>
   dt_sub (feb21 12 1 0) (feb21 12 0 0) = 1 * 60000000 \<and>
   evts (check_events ((open_frame [(30, 10)] [(60, 10)])\<lparr>no_entry_after_var := Some (- 1)\<rparr>)
     (feb21 12 1 0)) = [T40]"
  by (simp add: run_eval)

text \<open>
  C7. With a trigger open, an ask of at most 10 (and not below \<open>- 2 ^ 48\<close>, so that the
  P&L value is within the range of the floats) and at least the stop-loss delay (a setting
  of at most \<open>2 ^ 32\<close> seconds) elapsed since the trigger, the update emits one STOP LOSS
  row, with a callback registered one STOP LOSS event, adds one to the stop counter, closes
  the trigger and stops the tracker out, and changes nothing else. Whatever book updates
  follow in the contract, no further row is logged and no event delivered, and the counters
  stay as they are. The next roll, when it succeeds, resets the tracker: it is neither
  stopped out nor in a trigger, and both counters are 0.
\<close>

theorem stop_loss_ends_contract:
  assumes "\<not> stopped_out s" and "in_trigger s" and "trigger_time s = Some t"
    and "best_ask (book s) (side s) = Some ask" and "ask \<le> 10" and "- (2 ^ 48) \<le> ask"
    and "var_get (sl_delay_var s) \<le> 2 ^ 32"
    and "var_get (sl_delay_var s) * 1000000 \<le> dt_sub now t"
  shows "\<exists>s' s''. check_events s now = Inr s' \<and>
      s' = s\<lparr>stop_loss_count := stop_loss_count s + 1, in_trigger := False,
             trigger_time := None, stopped_out := True,
             log_rows := log_rows s @
               [\<lparr>row_time = now, row_ask = Some ask, row_duration = None,
                 row_evt = STOP_LOSS\<rparr>],
             delivered :=
               (if on_event s
                then delivered s @
                  [\<lparr>ev_time = now, ev_price = Some ask, ev_label = STOP_LOSS,
                    ev_duration = None,
                    ev_pnl_value = Some (Finite (10 * (of_int ask - 40) / 40))\<rparr>]
                else delivered s)\<rparr> \<and>
      poll s' ups = Inr s'' \<and> log_rows s'' = log_rows s' \<and> delivered s'' = delivered s' \<and>
      stop_loss_count s'' = stop_loss_count s + 1 \<and> cycle_count s'' = cycle_count s \<and>
      stopped_out s'' \<and> \<not> in_trigger s'' \<and>
      (\<forall>r. roll s'' now' = Inr r \<longrightarrow>
         \<not> stopped_out r \<and> \<not> in_trigger r \<and> stop_loss_count r = 0 \<and> cycle_count r = 0 \<and>
         trigger_time r = None \<and> log_rows r = log_rows s'' \<and> delivered r = delivered s'')"
proof -
  let ?d = "var_get (sl_delay_var s)"
  let ?s0 = "s\<lparr>stop_loss_count := stop_loss_count s + 1, in_trigger := False,
      trigger_time := None, stopped_out := True\<rparr>"
  let ?s' = "?s0\<lparr>log_rows := log_rows ?s0 @
               [\<lparr>row_time = now, row_ask = Some ask, row_duration = None,
                 row_evt = STOP_LOSS\<rparr>],
             delivered :=
               (if on_event ?s0
                then delivered ?s0 @
                  [\<lparr>ev_time = now, ev_price = Some ask, ev_label = STOP_LOSS,
                    ev_duration = None,
                    ev_pnl_value = Some (Finite (10 * (of_int ask - 40) / 40))\<rparr>]
                else delivered ?s0)\<rparr>"
  have na: "\<not> (0 < ?d \<and> total_seconds (dt_sub now t) < of_int ?d)"
  proof (cases "0 < ?d")
    case True
    from True assms(7) have "(total_seconds (dt_sub now t) < of_int ?d)
        = (dt_sub now t < ?d * 1000000)"
      by (rule total_seconds_less_iff)
    with assms(8) show ?thesis by simp
  next
    case False
    then show ?thesis by simp
  qed
  from assms(5,6) have rng: "\<bar>ask - 40\<bar> \<le> 2 ^ 49" by simp
  have "check_events s now = add_event_row ?s0 STOP_LOSS now ask None"
    using assms(1-5) na by (auto simp add: check_events_def Let_def)
  also have "\<dots> = Inr ?s'"
    using rng by (intro add_event_row_priced) simp_all
  finally have c: "check_events s now = Inr ?s'" .
  have st: "stopped_out ?s'" by simp
  from poll_stopped [OF st, of ups] obtain s'' where p: "poll ?s' ups = Inr s''"
    and q: "log_rows s'' = log_rows ?s'" "delivered s'' = delivered ?s'"
    "stop_loss_count s'' = stop_loss_count ?s'" "cycle_count s'' = cycle_count ?s'"
    "stopped_out s''" "in_trigger s'' = in_trigger ?s'"
    by blast
  have e: "?s' = s\<lparr>stop_loss_count := stop_loss_count s + 1, in_trigger := False,
             trigger_time := None, stopped_out := True,
             log_rows := log_rows s @
               [\<lparr>row_time = now, row_ask = Some ask, row_duration = None,
                 row_evt = STOP_LOSS\<rparr>],
             delivered :=
               (if on_event s
                then delivered s @
                  [\<lparr>ev_time = now, ev_price = Some ask, ev_label = STOP_LOSS,
                    ev_duration = None,
                    ev_pnl_value = Some (Finite (10 * (of_int ask - 40) / 40))\<rparr>]
                else delivered s)\<rparr>"
    by simp
  have r: "\<forall>r. roll s'' now' = Inr r \<longrightarrow>
         \<not> stopped_out r \<and> \<not> in_trigger r \<and> stop_loss_count r = 0 \<and> cycle_count r = 0 \<and>
         trigger_time r = None \<and> log_rows r = log_rows s'' \<and> delivered r = delivered s''"
    using roll_resets [of s'' now'] by blast
  from q have q': "stop_loss_count s'' = stop_loss_count s + 1" "cycle_count s'' = cycle_count s"
    "\<not> in_trigger s''"
    by simp_all
  from c e p q(1,2,5) q' r show ?thesis by (intro exI [of _ ?s'] exI [of _ s'']) simp
qed

theorem stop_loss_ends_contract_witness:
  "\<not> stopped_out ((triggered_frame [(5, 10)] [(92, 10)])\<lparr>sl_delay_var := Some 5\<rparr>) \<and>
   in_trigger ((triggered_frame [(5, 10)] [(92, 10)])\<lparr>sl_delay_var := Some 5\<rparr>) \<and>
   trigger_time ((triggered_frame [(5, 10)] [(92, 10)])\<lparr>sl_delay_var := Some 5\<rparr>)
     = Some (feb21 12 1 0) \<and>
   best_ask (book ((triggered_frame [(5, 10)] [(92, 10)])\<lparr>sl_delay_var := Some 5\<rparr>))
     (side ((triggered_frame [(5, 10)] [(92, 10)])\<lparr>sl_delay_var := Some 5\<rparr>)) = Some 8 \<and>
   var_get (sl_delay_var ((triggered_frame [(5, 10)] [(92, 10)])\<lparr>sl_delay_var := Some 5\<rparr>)) = 5 \<and>
   dt_sub (feb21 12 1 5) (feb21 12 1 0) = 5 * 1000000 \<and>
   evts (check_events ((triggered_frame [(5, 10)] [(92, 10)])\<lparr>sl_delay_var := Some 5\<rparr>)
     (feb21 12 1 4)) = [] \<and>
   evts (check_events ((triggered_frame [(5, 10)] [(92, 10)])\<lparr>sl_delay_var := Some 5\<rparr>)
     (feb21 12 1 5)) = [STOP_LOSS] \<and>
   sent (check_events ((triggered_frame [(5, 10)] [(92, 10)])\<lparr>sl_delay_var := Some 5\<rparr>)
     (feb21 12 1 5)) = [STOP_LOSS] \<and>
   pnls (check_events ((triggered_frame [(5, 10)] [(92, 10)])\<lparr>sl_delay_var := Some 5\<rparr>)
     (feb21 12 1 5)) = [Some (Finite (- 8))] \<and>
   evts (then_poll
      (check_events ((triggered_frame [(5, 10)] [(92, 10)])\<lparr>sl_delay_var := Some 5\<rparr>)
         (feb21 12 1 5))
      [(low_ask, feb21 12 2 0), (high_bid, feb21 12 2 5)]) = [STOP_LOSS] \<and>
   evts (then_poll (then_roll (then_poll
      (check_events ((triggered_frame [(5, 10)] [(92, 10)])\<lparr>sl_delay_var := Some 5\<rparr>)
         (feb21 12 1 5))
      [(low_ask, feb21 12 2 0), (high_bid, feb21 12 2 5)]) (feb21 12 15 1))
      [(low_ask, feb21 12 16 0)]) = [STOP_LOSS, T40]"
  using stop_loss_ends_contract
    [of "(triggered_frame [(5, 10)] [(92, 10)])\<lparr>sl_delay_var := Some 5\<rparr>" "feb21 12 1 0" 8
      "feb21 12 1 5" "[(low_ask, feb21 12 2 0), (high_bid, feb21 12 2 5)]" "feb21 12 15 1"]
  by (simp add: run_eval total_seconds_less_iff [of 5, simplified])

text \<open>
  C8. When the target fires (trigger open, ask above 10, bid at least 45 and at most
  \<open>2 ^ 49\<close>, which covers every price level, at least 2 seconds since the trigger) the
  cycle counter grows by one and the TARGET event carries the P&L value
  10 * (bid - 40) / 40, in which the entry ask does not occur; and in every sequence of
  updates each TARGET event delivered carries that value of its own price, when the price
  is within \<open>2 ^ 49\<close> of the cost basis.
\<close>

theorem target_cycle_and_pnl:
  assumes "\<not> stopped_out s" and "in_trigger s" and "trigger_time s = Some t"
    and "best_ask (book s) (side s) = Some ask" and "10 < ask"
    and "best_bid (book s) (side s) = Some bid" and "45 \<le> bid" and "bid \<le> 2 ^ 49"
    and "2 * 1000000 \<le> dt_sub now t"
    and "list_all target_pnl_ok (delivered s0)" and "poll s0 ups = Inr s1"
  shows "\<exists>s'. check_events s now = Inr s' \<and>
      cycle_count s' = cycle_count s + 1 \<and>
      log_rows s' = log_rows s @
        \<lparr>row_time = now, row_ask = Some bid,
          row_duration = Some (total_seconds (dt_sub now t)),
          row_evt = TARGET (cycle_count s + 1)\<rparr> #
        (if cycle_count s + 1 = 4
         then [\<lparr>row_time = now, row_ask = None, row_duration = None, row_evt = MILESTONE\<rparr>]
         else []) \<and>
      delivered s' =
        (if on_event s
         then delivered s @
           \<lparr>ev_time = now, ev_price = Some bid, ev_label = TARGET (cycle_count s + 1),
             ev_duration = Some (total_seconds (dt_sub now t)),
             ev_pnl_value = Some (Finite (10 * (of_int bid - 40) / 40))\<rparr> #
           (if cycle_count s + 1 = 4
            then [\<lparr>ev_time = now, ev_price = None, ev_label = MILESTONE,
                    ev_duration = None, ev_pnl_value = None\<rparr>]
            else [])
         else delivered s) \<and>
      list_all target_pnl_ok (delivered s1)"
proof -
  from assms(9) have dw: "\<not> total_seconds (dt_sub now t) < 2"
    by (simp add: total_seconds_less_2)
  from assms(5) have na: "\<not> ask \<le> 10" by simp
  from assms(7,8) have rng: "\<bar>bid - 40\<bar> \<le> 2 ^ 49" by simp
  let ?s0 = "s\<lparr>cycle_count := cycle_count s + 1, cycle_log := cycle_log s @ [(t, now)],
         in_trigger := False, trigger_time := None\<rparr>"
  let ?s1 = "?s0\<lparr>log_rows := log_rows ?s0 @
        [\<lparr>row_time = now, row_ask = Some bid,
          row_duration = Some (total_seconds (dt_sub now t)),
          row_evt = TARGET (cycle_count s + 1)\<rparr>],
      delivered :=
        (if on_event ?s0
         then delivered ?s0 @
           [\<lparr>ev_time = now, ev_price = Some bid, ev_label = TARGET (cycle_count s + 1),
             ev_duration = Some (total_seconds (dt_sub now t)),
             ev_pnl_value = Some (Finite (10 * (of_int bid - 40) / 40))\<rparr>]
         else delivered ?s0)\<rparr>"
  let ?s2 = "if cycle_count ?s1 = 4 then add_milestone_row ?s1 now else ?s1"
  let ?s3 = "if 0 < var_get (max_cycles_var ?s2) \<and> var_get (max_cycles_var ?s2) \<le> cycle_count ?s2
      then ?s2\<lparr>stopped_out := True\<rparr> else ?s2"
  have ev: "add_event_row ?s0 (TARGET (cycle_count s + 1)) now bid
      (Some (total_seconds (dt_sub now t))) = Inr ?s1"
    using rng by (intro add_event_row_priced) (simp_all add: startswith_TARGET_def)
  have c: "check_events s now = Inr ?s3"
    using assms(1-4,6,7) na dw by (simp add: check_events_def Let_def ev)
  have cc: "cycle_count ?s3 = cycle_count s + 1"
    by (simp add: add_milestone_row_def Let_def)
  have lr: "log_rows ?s3 = log_rows s @
        \<lparr>row_time = now, row_ask = Some bid,
          row_duration = Some (total_seconds (dt_sub now t)),
          row_evt = TARGET (cycle_count s + 1)\<rparr> #
        (if cycle_count s + 1 = 4
         then [\<lparr>row_time = now, row_ask = None, row_duration = None, row_evt = MILESTONE\<rparr>]
         else [])"
    by (simp add: add_milestone_row_def Let_def)
  have dl: "delivered ?s3 =
        (if on_event s
         then delivered s @
           \<lparr>ev_time = now, ev_price = Some bid, ev_label = TARGET (cycle_count s + 1),
             ev_duration = Some (total_seconds (dt_sub now t)),
             ev_pnl_value = Some (Finite (10 * (of_int bid - 40) / 40))\<rparr> #
           (if cycle_count s + 1 = 4
            then [\<lparr>ev_time = now, ev_price = None, ev_label = MILESTONE,
                    ev_duration = None, ev_pnl_value = None\<rparr>]
            else [])
         else delivered s)"
    by (simp add: add_milestone_row_def Let_def)
  from assms(10,11) have inv: "list_all target_pnl_ok (delivered s1)"
    by (rule target_pnl_ok_poll)
  from c cc lr dl inv show ?thesis by blast
qed

theorem target_cycle_and_pnl_witness:
  "\<not> stopped_out ((triggered_frame [(46, 10)] [(50, 10)])\<lparr>entry_ask := Some 35\<rparr>) \<and>
   in_trigger ((triggered_frame [(46, 10)] [(50, 10)])\<lparr>entry_ask := Some 35\<rparr>) \<and>
   trigger_time ((triggered_frame [(46, 10)] [(50, 10)])\<lparr>entry_ask := Some 35\<rparr>)
     = Some (feb21 12 1 0) \<and>
   best_ask (book ((triggered_frame [(46, 10)] [(50, 10)])\<lparr>entry_ask := Some 35\<rparr>))
     (side ((triggered_frame [(46, 10)] [(50, 10)])\<lparr>entry_ask := Some 35\<rparr>)) = Some 50 \<and>
   best_bid (book ((triggered_frame [(46, 10)] [(50, 10)])\<lparr>entry_ask := Some 35\<rparr>))
     (side ((triggered_frame [(46, 10)] [(50, 10)])\<lparr>entry_ask := Some 35\<rparr>)) = Some 46 \<and>
   dt_sub (feb21 12 1 3) (feb21 12 1 0) = 3 * 1000000 \<and>
   list_all target_pnl_ok (delivered (triggered_frame [(46, 10)] [(50, 10)])) \<and>
   poll (triggered_frame [(46, 10)] [(50, 10)]) [] = Inr (triggered_frame [(46, 10)] [(50, 10)]) \<and>
   evts (check_events ((triggered_frame [(46, 10)] [(50, 10)])\<lparr>entry_ask := Some 35\<rparr>)
     (feb21 12 1 3)) = [TARGET 1] \<and>
   sent (check_events ((triggered_frame [(46, 10)] [(50, 10)])\<lparr>entry_ask := Some 35\<rparr>)
     (feb21 12 1 3)) = [TARGET 1] \<and>
   durations (check_events ((triggered_frame [(46, 10)] [(50, 10)])\<lparr>entry_ask := Some 35\<rparr>)
     (feb21 12 1 3)) = [Some 3] \<and>
   pnls (check_events ((triggered_frame [(46, 10)] [(50, 10)])\<lparr>entry_ask := Some 35\<rparr>)
     (feb21 12 1 3)) = [Some (Finite (3 / 2))] \<and>
   evts (check_events ((triggered_frame [(46, 10)] [(50, 10)])\<lparr>entry_ask := Some 35\<rparr>)
     (feb21 12 1 1)) = []"
  using target_cycle_and_pnl
    [of "(triggered_frame [(46, 10)] [(50, 10)])\<lparr>entry_ask := Some 35\<rparr>" "feb21 12 1 0" 50 46
      "feb21 12 1 3" "triggered_frame [(46, 10)] [(50, 10)]" "[]"
      "triggered_frame [(46, 10)] [(50, 10)]"]
  by (simp add: run_eval total_seconds_whole [of 3, simplified])

text \<open>
  C4. One contract in which MILESTONE is emitted twice. Four cycles complete, the fourth
  TARGET is followed by the MILESTONE row; a fifth trigger opens at 12:05:00 and one second
  later the bid is 45 again: the dwell is below 2 seconds, so no TARGET is logged, but the
  test \<^verbatim>\<open>self._cycle_count == 4\<close> comes after the dwell test, not inside its else
  branch, and logs MILESTONE a second time.
\<close>

theorem milestone_repeated_in_contract:
  "evts (run ''yes'' True (feb21 12 0 1)
      [(low_ask, feb21 12 1 0), (high_bid, feb21 12 1 5),
       (low_ask, feb21 12 2 0), (high_bid, feb21 12 2 5),
       (low_ask, feb21 12 3 0), (high_bid, feb21 12 3 5),
       (low_ask, feb21 12 4 0), (high_bid, feb21 12 4 5),
       (low_ask, feb21 12 5 0), (high_bid, feb21 12 5 1)])
   = [T40, TARGET 1, T40, TARGET 2, T40, TARGET 3, T40, TARGET 4, MILESTONE, T40, MILESTONE]"
  by (simp add: run_eval)

end
